theory Spec2Isabelle
  imports Main "HOL-Library.AList"
begin

section \<open>Labels and mnemonics\<close>

text \<open>
  A label is a JavaScript string.  It is modelled as a \<^typ>\<open>string\<close> whose characters
  stand for the code units 0 to 255; the labels of the menu are written in that range.
\<close>

definition is_space :: "char \<Rightarrow> bool" where
  \<comment> \<open>the class \<open>\s\<close> of a regular expression, which is also what \<open>trim\<close> removes:
      tab, line feed, vertical tab, form feed, carriage return, space, no-break space\<close>
  "is_space c \<longleftrightarrow>
     c = CHR 0x09 \<or> c = CHR 0x0A \<or> c = CHR 0x0B \<or> c = CHR 0x0C \<or> c = CHR 0x0D \<or>
     c = CHR '' '' \<or> c = CHR 0xA0"

definition mnemonic_char :: "char \<Rightarrow> bool" where
  \<comment> \<open>the class \<open>[^\s&]\<close>\<close>
  "mnemonic_char c \<longleftrightarrow> \<not> is_space c \<and> c \<noteq> CHR ''&''"

definition lower_char :: "char \<Rightarrow> char" where
  \<comment> \<open>\<open>toLocaleLowerCase\<close> on one code unit below 256, in a locale without special
      casing rules: A to Z and the accented capitals (all of 0xC0 to 0xDE but the
      multiplication sign) move up by 32\<close>
  "lower_char c =
     (let n = (of_char c :: nat)
      in if (65 \<le> n \<and> n \<le> 90) \<or> (192 \<le> n \<and> n \<le> 222 \<and> n \<noteq> 215)
         then char_of (n + 32) else c)"

definition toLocaleLowerCase :: "string \<Rightarrow> string" where
  "toLocaleLowerCase s = map lower_char s"

definition trim :: "string \<Rightarrow> string" where
  "trim s = rev (dropWhile is_space (rev (dropWhile is_space s)))"

fun replace_all :: "string \<Rightarrow> string \<Rightarrow> string \<Rightarrow> string" where
  \<comment> \<open>\<open>s.replace(/pat/g, by)\<close> for a pattern that is a fixed, non-empty text: the
      matches are taken from left to right and do not overlap\<close>
  "replace_all pat by [] = []"
| "replace_all pat by (c # s) =
     (if pat \<noteq> [] \<and> take (length pat) (c # s) = pat
      then by @ replace_all pat by (drop (length pat) (c # s))
      else c # replace_all pat by s)"

text \<open>
  The result of \<open>RegExp.exec\<close>: where the match starts, the text it covers
  (\<open>matches[0]\<close>) and the three groups, \<open>None\<close> for a group that took no part.
\<close>

record regexp_match =
  index :: nat
  matched :: string
  group1 :: "string option"
  group2 :: "string option"
  group3 :: "string option"

definition MENU_MNEMONIC_REGEX_at :: "bool \<Rightarrow> string \<Rightarrow> regexp_match option" where
  \<comment> \<open>\<open>/\(&([^\s&])\)|(^|[^&])&([^\s&])/\<close> tried at one position, whose rest of the
      label is the second argument; the first says whether the position is the start
      of the label.  The alternatives are tried in the order they are written.\<close>
  "MENU_MNEMONIC_REGEX_at start s =
     (case s of
        a # b # c # d # _ \<Rightarrow>
          if a = CHR ''('' \<and> b = CHR ''&'' \<and> mnemonic_char c \<and> d = CHR '')''
          then Some \<lparr>index = 0, matched = [a, b, c, d],
                     group1 = Some [c], group2 = None, group3 = None\<rparr>
          else if start \<and> a = CHR ''&'' \<and> mnemonic_char b
          then Some \<lparr>index = 0, matched = [a, b],
                     group1 = None, group2 = Some [], group3 = Some [b]\<rparr>
          else if a \<noteq> CHR ''&'' \<and> b = CHR ''&'' \<and> mnemonic_char c
          then Some \<lparr>index = 0, matched = [a, b, c],
                     group1 = None, group2 = Some [a], group3 = Some [c]\<rparr>
          else None
      | [a, b, c] \<Rightarrow>
          if start \<and> a = CHR ''&'' \<and> mnemonic_char b
          then Some \<lparr>index = 0, matched = [a, b],
                     group1 = None, group2 = Some [], group3 = Some [b]\<rparr>
          else if a \<noteq> CHR ''&'' \<and> b = CHR ''&'' \<and> mnemonic_char c
          then Some \<lparr>index = 0, matched = [a, b, c],
                     group1 = None, group2 = Some [a], group3 = Some [c]\<rparr>
          else None
      | [a, b] \<Rightarrow>
          if start \<and> a = CHR ''&'' \<and> mnemonic_char b
          then Some \<lparr>index = 0, matched = [a, b],
                     group1 = None, group2 = Some [], group3 = Some [b]\<rparr>
          else None
      | _ \<Rightarrow> None)"

fun MENU_MNEMONIC_REGEX_from :: "nat \<Rightarrow> string \<Rightarrow> regexp_match option" where
  \<comment> \<open>the search of \<open>exec\<close>: the leftmost position where the expression matches\<close>
  "MENU_MNEMONIC_REGEX_from i [] = None"
| "MENU_MNEMONIC_REGEX_from i (c # s) =
     (case MENU_MNEMONIC_REGEX_at (i = 0) (c # s) of
        Some m \<Rightarrow> Some (m\<lparr>index := i\<rparr>)
      | None \<Rightarrow> MENU_MNEMONIC_REGEX_from (Suc i) s)"

definition MENU_MNEMONIC_REGEX_exec :: "string \<Rightarrow> regexp_match option" where
  "MENU_MNEMONIC_REGEX_exec label = MENU_MNEMONIC_REGEX_from 0 label"

definition mnemonic_of_match :: "regexp_match \<Rightarrow> string" where
  \<comment> \<open>\<open>(!!matches[1] ? matches[1] : matches[3]).toLocaleLowerCase()\<close>\<close>
  "mnemonic_of_match m =
     toLocaleLowerCase
       (case group1 m of
          Some g \<Rightarrow> if g \<noteq> [] then g else (case group3 m of Some h \<Rightarrow> h | None \<Rightarrow> [])
        | None \<Rightarrow> (case group3 m of Some h \<Rightarrow> h | None \<Rightarrow> []))"

definition cleanMnemonic :: "string \<Rightarrow> string" where
  "cleanMnemonic label =
     (case MENU_MNEMONIC_REGEX_exec label of
        None \<Rightarrow> label
      | Some matches \<Rightarrow>
          let mnemonicInText = (case group1 matches of None \<Rightarrow> True | Some g \<Rightarrow> g = []);
              group = (\<lambda>g. case g of None \<Rightarrow> [] | Some t \<Rightarrow> t);
              replacement =
                (if mnemonicInText then group (group2 matches) @ group (group3 matches) else [])
          in trim (take (index matches) label @ replacement @
                   drop (index matches + length (matched matches)) label))"

section \<open>Actions, item views and the menu\<close>

datatype action =
    Action (label: string) (enabled: bool)
  | Separator (label: string) (enabled: bool)
  | SubmenuAction (label: string) (enabled: bool) (entries: "action list")
  where
    "entries (Action l e) = []"
  | "entries (Separator l e) = []"

text \<open>
  A value of type \<open>any\<close>: the context of a menu is opaque to it.  An item view starts
  with its own action as context (\<open>super(action, action, options)\<close>).
\<close>

datatype any = Undefined | Opaque nat | ActionObject action

datatype item_class =
  MenuSeparatorActionViewItem | BaseMenuActionViewItem | SubmenuMenuActionViewItem

text \<open>
  An item view.  DOM elements and child menus are named by numbers.  A
  \<open>RunOnceScheduler\<close> is the flag that says whether its timer is pending.  The fields
  from \<open>mysubmenu\<close> on are those of a \<open>SubmenuMenuActionViewItem\<close>.
\<close>

record view_item =
  item_class :: item_class
  action_of :: action
  context_of :: any
  options_label :: bool
  options_enableMnemonics :: bool
  mnemonic :: "string option"
  element :: "nat option"
  container :: "nat option"
  runOnceToEnableMouseUp :: bool
  mouseUpListener :: bool
  mysubmenu :: "nat option"
  submenuContainer :: bool
  mouseOver :: bool
  showScheduler :: bool
  hideScheduler :: bool

record menu_options =
  ctx :: any
  enableMnemonics :: bool

record child_menu =
  disposed :: bool

text \<open>What a handler does to its collaborators, in the order it does it.\<close>

datatype effect =
    Constructed nat
  | Disposed nat
  | ChildFocus nat bool
  | ParentFocus "bool option"
  | UpdateFocus
  | Run action any

text \<open>
  One level of the menu tree: a \<open>Menu\<close>, its item views, and the record
  \<open>ISubMenuData\<close> it shares with them, whose field \<open>submenu\<close> is
  \<open>parentData_submenu\<close>.  The child menus constructed at this level live in \<open>heap\<close>;
  a child menu is named by its position there.  The index of mnemonics holds item
  views by reference: they are named by their position in \<open>viewItems\<close>.
\<close>

record menu =
  options :: menu_options
  isLinux :: bool
  viewItems :: "view_item list"
  actionsList :: "nat list"
  focusedItem :: "int option"
  mnemonics :: "(string \<times> nat list) list"
  parentData_submenu :: "nat option"
  heap :: "child_menu list"
  trace :: "effect list"

definition emit :: "effect \<Rightarrow> menu \<Rightarrow> menu" where
  "emit e s = s\<lparr>trace := trace s @ [e]\<rparr>"

definition upd_item :: "nat \<Rightarrow> (view_item \<Rightarrow> view_item) \<Rightarrow> menu \<Rightarrow> menu" where
  \<comment> \<open>a write to the fields of the item view at a position\<close>
  "upd_item i f s =
     (if i < length (viewItems s)
      then s\<lparr>viewItems := (viewItems s)[i := f (viewItems s ! i)]\<rparr> else s)"

definition item_at :: "menu \<Rightarrow> nat \<Rightarrow> view_item option" where
  \<comment> \<open>\<open>this.viewItems[i]\<close>: \<open>None\<close> is JavaScript's \<open>undefined\<close>\<close>
  "item_at s i = (if i < length (viewItems s) then Some (viewItems s ! i) else None)"

definition Menu_dispose :: "nat \<Rightarrow> menu \<Rightarrow> menu" where
  \<comment> \<open>\<open>dispose()\<close> of the child menu with this name\<close>
  "Menu_dispose m s =
     emit (Disposed m)
       (if m < length (heap s) then s\<lparr>heap := (heap s)[m := (heap s ! m)\<lparr>disposed := True\<rparr>]\<rparr>
        else s)"

subsection \<open>The constructor of an item view\<close>

definition BaseMenuActionViewItem_mnemonic :: "bool option \<Rightarrow> bool \<Rightarrow> string \<Rightarrow> string option" where
  \<comment> \<open>the part of the constructor under \<open>// Set mnemonic\<close>; the first argument is
      \<open>options.label\<close>, which counts as true when it is undefined\<close>
  "BaseMenuActionViewItem_mnemonic opt_label enable lbl =
     (if (case opt_label of None \<Rightarrow> True | Some b \<Rightarrow> b) \<and> enable
      then (if lbl \<noteq> []
            then (case MENU_MNEMONIC_REGEX_exec lbl of
                    Some matches \<Rightarrow> Some (mnemonic_of_match matches)
                  | None \<Rightarrow> None)
            else None)
      else None)"

definition new_item :: "item_class \<Rightarrow> action \<Rightarrow> bool option \<Rightarrow> bool \<Rightarrow> view_item" where
  \<comment> \<open>the constructors of \<open>BaseMenuActionViewItem\<close> and \<open>SubmenuMenuActionViewItem\<close>\<close>
  "new_item c a opt_label enable =
     \<lparr>item_class = c, action_of = a, context_of = ActionObject a,
      options_label = (case opt_label of None \<Rightarrow> True | Some b \<Rightarrow> b),
      options_enableMnemonics = enable,
      mnemonic = BaseMenuActionViewItem_mnemonic opt_label enable (label a),
      element = None, container = None,
      runOnceToEnableMouseUp = False, mouseUpListener = False,
      mysubmenu = None, submenuContainer = False, mouseOver = False,
      showScheduler = False, hideScheduler = False\<rparr>"

definition getMnemonic :: "view_item \<Rightarrow> string option" where
  "getMnemonic it = mnemonic it"

definition isEnabled :: "view_item \<Rightarrow> bool" where
  \<comment> \<open>Modelled from the spec: \<open>BaseActionViewItem.isEnabled\<close> is not in src; an item
      view "exposes enable/checked/label/mnemonic state" of its action.\<close>
  "isEnabled it = enabled (action_of it)"

subsection \<open>updateLabel\<close>

definition strings_escape :: "string \<Rightarrow> string" where
  \<comment> \<open>Modelled from the spec: \<open>strings.escape\<close> is not in src; it is the helper that
      "escapes markup", writing \<open><\<close>, \<open>>\<close> and \<open>&\<close> as the entities of HTML.\<close>
  "strings_escape html =
     concat (map (\<lambda>c. if c = CHR ''<'' then ''&lt;''
                        else if c = CHR ''>'' then ''&gt;''
                        else if c = CHR ''&'' then ''&amp;''
                        else [c]) html)"

definition MENU_ESCAPED_MNEMONIC_REGEX_at :: "string \<Rightarrow> regexp_match option" where
  \<comment> \<open>\<open>/(&amp;)?(&amp;)([^\s&])/\<close> tried at one position: the optional group is
      greedy, and is given up when the rest does not match after it\<close>
  "MENU_ESCAPED_MNEMONIC_REGEX_at s =
     (if take 10 s = ''&amp;&amp;'' \<and> 10 < length s \<and> mnemonic_char (s ! 10)
      then Some \<lparr>index = 0, matched = take 11 s,
                 group1 = Some ''&amp;'', group2 = Some ''&amp;'', group3 = Some [s ! 10]\<rparr>
      else if take 5 s = ''&amp;'' \<and> 5 < length s \<and> mnemonic_char (s ! 5)
      then Some \<lparr>index = 0, matched = take 6 s,
                 group1 = None, group2 = Some ''&amp;'', group3 = Some [s ! 5]\<rparr>
      else None)"

fun MENU_ESCAPED_MNEMONIC_REGEX_from :: "nat \<Rightarrow> string \<Rightarrow> regexp_match option" where
  "MENU_ESCAPED_MNEMONIC_REGEX_from i [] = None"
| "MENU_ESCAPED_MNEMONIC_REGEX_from i (c # s) =
     (case MENU_ESCAPED_MNEMONIC_REGEX_at (c # s) of
        Some m \<Rightarrow> Some (m\<lparr>index := i\<rparr>)
      | None \<Rightarrow> MENU_ESCAPED_MNEMONIC_REGEX_from (Suc i) s)"

definition MENU_ESCAPED_MNEMONIC_REGEX_exec :: "string \<Rightarrow> nat \<Rightarrow> regexp_match option" where
  \<comment> \<open>\<open>exec\<close> of the global expression: the search starts at \<open>lastIndex\<close>, the second
      argument, and a match leaves \<open>lastIndex\<close> at its end\<close>
  "MENU_ESCAPED_MNEMONIC_REGEX_exec lbl lastIndex =
     MENU_ESCAPED_MNEMONIC_REGEX_from lastIndex (drop lastIndex lbl)"

lemma MENU_ESCAPED_MNEMONIC_REGEX_from_bounds:
  "MENU_ESCAPED_MNEMONIC_REGEX_from i s = Some m \<Longrightarrow>
   i \<le> index m \<and> 0 < length (matched m) \<and> index m + length (matched m) \<le> i + length s"
proof (induction s arbitrary: i)
  case Nil
  then show ?case by simp
next
  case (Cons c s)
  show ?case
  proof (cases "MENU_ESCAPED_MNEMONIC_REGEX_at (c # s)")
    case None
    with Cons.prems have "MENU_ESCAPED_MNEMONIC_REGEX_from (Suc i) s = Some m" by simp
    from Cons.IH [OF this] show ?thesis by simp
  next
    case (Some m')
    with Cons.prems have m: "m = m'\<lparr>index := i\<rparr>" by simp
    from Some have "0 < length (matched m') \<and> length (matched m') \<le> length (c # s)"
      by (auto simp: MENU_ESCAPED_MNEMONIC_REGEX_at_def split: if_splits)
    with m show ?thesis by simp
  qed
qed

function skip_escaped :: "string \<Rightarrow> nat \<Rightarrow> regexp_match option" where
  \<comment> \<open>\<open>escMatch = exec(label); while (escMatch && escMatch[1]) escMatch = exec(label)\<close>\<close>
  "skip_escaped lbl lastIndex =
     (case MENU_ESCAPED_MNEMONIC_REGEX_exec lbl lastIndex of
        None \<Rightarrow> None
      | Some escMatch \<Rightarrow>
          if group1 escMatch \<noteq> None
          then skip_escaped lbl (index escMatch + length (matched escMatch))
          else Some escMatch)"
  by pat_completeness auto
termination
proof (relation "measure (\<lambda>(lbl, lastIndex). length lbl - lastIndex)")
  show "wf (measure (\<lambda>(lbl, lastIndex). length lbl - lastIndex))" by simp
next
  fix lbl lastIndex escMatch
  assume "MENU_ESCAPED_MNEMONIC_REGEX_exec lbl lastIndex = Some escMatch"
  then have "lastIndex \<le> index escMatch \<and> 0 < length (matched escMatch) \<and>
      index escMatch + length (matched escMatch) \<le> lastIndex + length (drop lastIndex lbl)"
    unfolding MENU_ESCAPED_MNEMONIC_REGEX_exec_def
    by (rule MENU_ESCAPED_MNEMONIC_REGEX_from_bounds)
  then have "length lbl - (index escMatch + length (matched escMatch)) < length lbl - lastIndex"
    unfolding length_drop by arith
  then show "((lbl, index escMatch + length (matched escMatch)), (lbl, lastIndex))
      \<in> measure (\<lambda>(lbl, lastIndex). length lbl - lastIndex)"
    by simp
qed

declare skip_escaped.simps [simp del]

text \<open>
  What \<open>updateLabel\<close> writes: the inner HTML and the \<open>aria-label\<close> of the label
  element, and the \<open>aria-keyshortcuts\<close> of the item element.
\<close>

record label_dom =
  innerHTML :: string
  aria_label :: "string option"
  aria_keyshortcuts :: "string option"

definition underline :: "string \<Rightarrow> string" where
  \<comment> \<open>\<open><u aria-hidden="true">...</u>\<close>\<close>
  "underline t = ''<u aria-hidden='' @ [CHR 0x22] @ ''true'' @ [CHR 0x22] @ ''>'' @ t @ ''</u>''"

definition updateLabel :: "view_item \<Rightarrow> label_dom \<Rightarrow> label_dom" where
  \<comment> \<open>on a rendered item view: \<open>this.label\<close> and \<open>this.item\<close> are elements\<close>
  "updateLabel this d =
     (if options_label this
      then (let lbl = label (action_of this) in
            if lbl \<noteq> []
            then (let cleanLabel = cleanMnemonic lbl;
                      lbl1 = (if \<not> options_enableMnemonics this then cleanLabel else lbl);
                      dom1 = d\<lparr>aria_label := Some (replace_all ''&&'' ''&'' cleanLabel)\<rparr>
                  in case MENU_MNEMONIC_REGEX_exec lbl1 of
                       Some matches \<Rightarrow>
                         (let lbl2 = strings_escape lbl1;
                              lbl3 =
                                (case skip_escaped lbl2 0 of
                                   Some escMatch \<Rightarrow>
                                     take (index escMatch) lbl2 @
                                     underline (case group3 escMatch of Some g \<Rightarrow> g | None \<Rightarrow> []) @
                                     drop (index escMatch + length (matched escMatch)) lbl2
                                 | None \<Rightarrow> lbl2);
                              lbl4 = replace_all ''&amp;&amp;'' ''&amp;'' lbl3
                          in dom1\<lparr>innerHTML := trim lbl4,
                                  aria_keyshortcuts := Some (mnemonic_of_match matches)\<rparr>)
                     | None \<Rightarrow> dom1\<lparr>innerHTML := trim (replace_all ''&&'' ''&'' lbl1)\<rparr>)
            else d\<lparr>innerHTML := trim lbl\<rparr>)
      else d)"

subsection \<open>Rendering and disposing an item view\<close>

definition render :: "nat \<Rightarrow> nat \<Rightarrow> menu \<Rightarrow> menu" where
  \<comment> \<open>\<open>render(container)\<close> of the item view at a position.  Modelled from the spec:
      \<open>BaseActionViewItem.render\<close> is not in src; it is what "has produced DOM
      structure", the \<open>element\<close> the methods of an item view test.  The scheduler that
      arms the mouse-up listener is started here.\<close>
  "render i c s =
     upd_item i
       (\<lambda>it. if item_class it = MenuSeparatorActionViewItem then it\<lparr>element := Some c\<rparr>
             else it\<lparr>element := Some c, container := Some c, runOnceToEnableMouseUp := True\<rparr>)
       s"

definition BaseActionViewItem_dispose :: "view_item \<Rightarrow> view_item" where
  \<comment> \<open>Modelled from the spec: \<open>BaseActionViewItem.dispose\<close> and \<open>Disposable\<close> are not in
      src.  An item view must "release its own timers/listeners": what it passed to
      \<open>_register\<close> is disposed, that is the scheduler \<open>runOnceToEnableMouseUp\<close>, the
      listeners on its element and the store \<open>submenuDisposables\<close>; the element is
      removed.\<close>
  "BaseActionViewItem_dispose it =
     it\<lparr>element := None, runOnceToEnableMouseUp := False, mouseUpListener := False\<rparr>"

definition SubmenuMenuActionViewItem_dispose :: "nat \<Rightarrow> menu \<Rightarrow> menu" where
  "SubmenuMenuActionViewItem_dispose i s =
     (let s1 = upd_item i BaseActionViewItem_dispose s;
          s2 = upd_item i (\<lambda>it. it\<lparr>hideScheduler := False\<rparr>) s1;
          s3 = (case item_at s2 i of
                  None \<Rightarrow> s2
                | Some this \<Rightarrow>
                    (case mysubmenu this of
                       Some m \<Rightarrow> upd_item i (\<lambda>it. it\<lparr>mysubmenu := None\<rparr>) (Menu_dispose m s2)
                     | None \<Rightarrow> s2))
      in upd_item i (\<lambda>it. it\<lparr>submenuContainer := False\<rparr>) s3)"

subsection \<open>Opening and closing a submenu\<close>

definition cleanupExistingSubmenu :: "nat \<Rightarrow> bool \<Rightarrow> menu \<Rightarrow> menu" where
  "cleanupExistingSubmenu i force s =
     (case item_at s i of
        None \<Rightarrow> s
      | Some this \<Rightarrow>
          (case parentData_submenu s of
             None \<Rightarrow> s
           | Some m \<Rightarrow>
               if force \<or> Some m \<noteq> mysubmenu this
               then upd_item i (\<lambda>it. it\<lparr>submenuContainer := False\<rparr>)
                      ((Menu_dispose m s)\<lparr>parentData_submenu := None\<rparr>)
               else s))"

definition createSubmenu :: "nat \<Rightarrow> bool \<Rightarrow> menu \<Rightarrow> menu" where
  \<comment> \<open>the new child menu takes the next free name; its position on the screen is not
      modelled\<close>
  "createSubmenu i selectFirstItem s =
     (case item_at s i of
        None \<Rightarrow> s
      | Some this \<Rightarrow>
          if element this = None then s
          else (case parentData_submenu s of
                  None \<Rightarrow>
                    (let m = length (heap s);
                         s1 = emit (Constructed m)
                                (s\<lparr>heap := heap s @ [\<lparr>disposed = False\<rparr>],
                                   parentData_submenu := Some m\<rparr>);
                         s2 = upd_item i (\<lambda>it. it\<lparr>submenuContainer := True\<rparr>) s1;
                         s3 = emit (ChildFocus m selectFirstItem) s2
                     in upd_item i (\<lambda>it. it\<lparr>mysubmenu := parentData_submenu s3\<rparr>) s3)
                | Some m \<Rightarrow> emit (ChildFocus m False) s))"

definition SubmenuMenuActionViewItem_open :: "nat \<Rightarrow> bool \<Rightarrow> menu \<Rightarrow> menu" where
  "SubmenuMenuActionViewItem_open i selectFirst s =
     createSubmenu i selectFirst (cleanupExistingSubmenu i False s)"

definition onClick :: "nat \<Rightarrow> menu \<Rightarrow> menu" where
  \<comment> \<open>a submenu item overrides \<open>onClick\<close>.  Modelled from the spec: the
      \<open>BaseActionViewItem.onClick\<close> another item inherits is not in src; it "triggers
      activation", running the action with the context of the item.\<close>
  "onClick i s =
     (case item_at s i of
        None \<Rightarrow> s
      | Some this \<Rightarrow>
          if item_class this = SubmenuMenuActionViewItem
          then createSubmenu i True (cleanupExistingSubmenu i False s)
          else emit (Run (action_of this) (context_of this)) s)"

subsection \<open>Timers\<close>

text \<open>
  Modelled from the spec: \<open>RunOnceScheduler\<close> is not in src.  It is a "one-shot",
  "cancellable" timer: \<open>schedule()\<close> makes it pending, \<open>dispose()\<close> cancels it, and when a
  pending timer fires it stops being pending and runs its callback.
\<close>

definition showScheduler_callback :: "nat \<Rightarrow> menu \<Rightarrow> menu" where
  "showScheduler_callback i s =
     (case item_at s i of
        None \<Rightarrow> s
      | Some this \<Rightarrow>
          if mouseOver this
          then createSubmenu i False (cleanupExistingSubmenu i False s)
          else s)"

definition showScheduler_fire :: "nat \<Rightarrow> menu \<Rightarrow> menu" where
  "showScheduler_fire i s =
     (case item_at s i of
        None \<Rightarrow> s
      | Some this \<Rightarrow>
          if showScheduler this
          then showScheduler_callback i (upd_item i (\<lambda>it. it\<lparr>showScheduler := False\<rparr>) s)
          else s)"

definition hideScheduler_callback :: "nat \<Rightarrow> bool \<Rightarrow> menu \<Rightarrow> menu" where
  \<comment> \<open>the second argument is \<open>isAncestor(document.activeElement, this.element)\<close>.  The
      slot holds a menu or \<open>undefined\<close> and \<open>mysubmenu\<close> a menu or \<open>null\<close>: they are
      \<open>===\<close> only when both are the same menu.\<close>
  "hideScheduler_callback i focusInside s =
     (case item_at s i of
        None \<Rightarrow> s
      | Some this \<Rightarrow>
          if element this \<noteq> None \<and> \<not> focusInside \<and>
             parentData_submenu s \<noteq> None \<and> parentData_submenu s = mysubmenu this
          then cleanupExistingSubmenu i True (emit (ParentFocus (Some False)) s)
          else s)"

definition hideScheduler_fire :: "nat \<Rightarrow> bool \<Rightarrow> menu \<Rightarrow> menu" where
  "hideScheduler_fire i focusInside s =
     (case item_at s i of
        None \<Rightarrow> s
      | Some this \<Rightarrow>
          if hideScheduler this
          then hideScheduler_callback i focusInside
                 (upd_item i (\<lambda>it. it\<lparr>hideScheduler := False\<rparr>) s)
          else s)"

definition runOnceToEnableMouseUp_fire :: "nat \<Rightarrow> menu \<Rightarrow> menu" where
  "runOnceToEnableMouseUp_fire i s =
     (case item_at s i of
        None \<Rightarrow> s
      | Some this \<Rightarrow>
          if runOnceToEnableMouseUp this
          then upd_item i
                 (\<lambda>it. if element it = None then it\<lparr>runOnceToEnableMouseUp := False\<rparr>
                       else it\<lparr>runOnceToEnableMouseUp := False, mouseUpListener := True\<rparr>) s
          else s)"

subsection \<open>The listeners of a submenu item\<close>

definition MOUSE_OVER :: "nat \<Rightarrow> menu \<Rightarrow> menu" where
  "MOUSE_OVER i s =
     upd_item i (\<lambda>it. if \<not> mouseOver it then it\<lparr>mouseOver := True, showScheduler := True\<rparr> else it) s"

definition MOUSE_LEAVE :: "nat \<Rightarrow> menu \<Rightarrow> menu" where
  "MOUSE_LEAVE i s = upd_item i (\<lambda>it. it\<lparr>mouseOver := False\<rparr>) s"

definition FOCUS_OUT :: "nat \<Rightarrow> bool \<Rightarrow> menu \<Rightarrow> menu" where
  "FOCUS_OUT i focusInside s =
     upd_item i
       (\<lambda>it. if element it \<noteq> None \<and> \<not> focusInside then it\<lparr>hideScheduler := True\<rparr> else it) s"

definition KEY_UP_open :: "nat \<Rightarrow> menu \<Rightarrow> menu" where
  \<comment> \<open>key up of the right arrow or of Enter on the item\<close>
  "KEY_UP_open i s = createSubmenu i True s"

definition MOUSE_UP :: "nat \<Rightarrow> bool \<Rightarrow> menu \<Rightarrow> menu" where
  "MOUSE_UP i defaultPrevented s =
     (case item_at s i of
        None \<Rightarrow> s
      | Some this \<Rightarrow> if mouseUpListener this \<and> \<not> defaultPrevented then onClick i s else s)"

definition onScroll :: "nat \<Rightarrow> menu \<Rightarrow> menu" where
  \<comment> \<open>the listener of a submenu item on the scrolling of its parent\<close>
  "onScroll i s = cleanupExistingSubmenu i False (emit (ParentFocus (Some False)) s)"

definition submenu_close :: "nat \<Rightarrow> menu \<Rightarrow> menu" where
  \<comment> \<open>key up of the left arrow inside the submenu, and \<open>onDidCancel\<close> of the submenu\<close>
  "submenu_close i s = cleanupExistingSubmenu i True (emit (ParentFocus None) s)"

section \<open>The menu\<close>

subsection \<open>Focus\<close>

definition updateFocus :: "menu \<Rightarrow> menu" where
  \<comment> \<open>Modelled from the spec: \<open>ActionBar.updateFocus\<close> is not in src; it shows the
      focused index on the item views and changes no field modelled here\<close>
  "updateFocus s = emit UpdateFocus s"

fun setFocusedItem_loop :: "nat \<Rightarrow> nat list \<Rightarrow> nat \<Rightarrow> nat option" where
  \<comment> \<open>the \<open>for\<close> loop of \<open>setFocusedItem\<close> over the children from position \<open>i\<close> on\<close>
  "setFocusedItem_loop e [] i = None"
| "setFocusedItem_loop e (elem # children) i =
     (if e = elem then Some i else setFocusedItem_loop e children (Suc i))"

definition setFocusedItem :: "nat \<Rightarrow> menu \<Rightarrow> menu" where
  "setFocusedItem e s =
     (case setFocusedItem_loop e (actionsList s) 0 of
        Some i \<Rightarrow> s\<lparr>focusedItem := Some (int i)\<rparr>
      | None \<Rightarrow> s)"

definition focusItemByElement :: "nat \<Rightarrow> menu \<Rightarrow> menu" where
  "focusItemByElement e s =
     (let lastFocusedItem = focusedItem s;
          s1 = setFocusedItem e s
      in if lastFocusedItem \<noteq> focusedItem s1 then updateFocus s1 else s1)"

definition focusable :: "menu \<Rightarrow> nat \<Rightarrow> bool" where
  \<comment> \<open>an item view is "focusable (unless separator/disabled)"\<close>
  "focusable s j \<longleftrightarrow>
     (case item_at s j of
        None \<Rightarrow> False
      | Some it \<Rightarrow> item_class it \<noteq> MenuSeparatorActionViewItem \<and> isEnabled it)"

definition focusNext :: "menu \<Rightarrow> menu" where
  \<comment> \<open>Modelled from the spec: \<open>ActionBar.focusNext\<close> is not in src.  "Wrap-around
      traversal over focusable items only; skips separators; if no item is currently
      focused, enters at the boundary appropriate to direction": the positions after
      the focused one are tried in turn, round to the focused one itself, and the first
      focusable one takes the focus; no position keeps it when none is focusable.\<close>
  "focusNext s =
     (let n = length (viewItems s);
          start = (case focusedItem s of None \<Rightarrow> int n - 1 | Some f \<Rightarrow> f);
          candidates = map (\<lambda>k. nat ((start + int k) mod int n)) [1..<Suc n]
      in updateFocus (s\<lparr>focusedItem := map_option int (find (focusable s) candidates)\<rparr>))"

definition focusPrevious :: "menu \<Rightarrow> menu" where
  \<comment> \<open>Modelled from the spec: \<open>ActionBar.focusPrevious\<close> is not in src; as \<open>focusNext\<close>,
      through the positions before the focused one, and entering at position 0 when
      no item is focused.\<close>
  "focusPrevious s =
     (let n = length (viewItems s);
          start = (case focusedItem s of None \<Rightarrow> 0 | Some f \<Rightarrow> f);
          candidates = map (\<lambda>k. nat ((start - int k) mod int n)) [1..<Suc n]
      in updateFocus (s\<lparr>focusedItem := map_option int (find (focusable s) candidates)\<rparr>))"

definition ActionBar_focus_index :: "int \<Rightarrow> menu \<Rightarrow> menu" where
  \<comment> \<open>Modelled from the spec: \<open>ActionBar.focus\<close> is not in src; called with an index it
      "moves focus to the ... specified ... item"\<close>
  "ActionBar_focus_index i s = updateFocus (s\<lparr>focusedItem := Some i\<rparr>)"

definition ActionBar_run :: "action \<Rightarrow> any \<Rightarrow> menu \<Rightarrow> menu" where
  \<comment> \<open>Modelled from the spec: \<open>ActionBar.run\<close> is not in src; it "invokes activation"
      of the action with the context it is given\<close>
  "ActionBar_run a c s = emit (Run a c) s"

subsection \<open>trigger\<close>

definition trigger :: "int \<Rightarrow> menu \<Rightarrow> menu" where
  \<comment> \<open>the index is a whole number here.  \<open>this.viewItems[index]\<close> is \<open>undefined\<close> at the
      length of the list, and \<open>undefined\<close> is an instance of no class.\<close>
  "trigger idx s =
     (if idx \<le> int (length (viewItems s)) \<and> idx \<ge> 0
      then (case item_at s (nat idx) of
              None \<Rightarrow> s
            | Some item \<Rightarrow>
                if item_class item = SubmenuMenuActionViewItem
                then SubmenuMenuActionViewItem_open (nat idx) True (ActionBar_focus_index idx s)
                else if item_class item = BaseMenuActionViewItem
                then ActionBar_run (action_of item) (context_of item) s
                else s)
      else s)"

subsection \<open>Key-down listeners of the menu\<close>

datatype KeyCode = Home | End | PageUp | PageDown | Tab | Enter | Space | OtherKey

definition KEY_DOWN_mnemonic :: "string \<Rightarrow> menu \<Rightarrow> menu" where
  \<comment> \<open>the listener registered when \<open>options.enableMnemonics\<close>; the argument is \<open>e.key\<close>\<close>
  "KEY_DOWN_mnemonic k s =
     (if enableMnemonics (options s)
      then (let key = toLocaleLowerCase k in
            case map_of (mnemonics s) key of
              None \<Rightarrow> s
            | Some actions \<Rightarrow>
                (let s1 =
                   (if length actions = 1
                    then (let a = hd actions;
                              s0 = (case item_at s a of
                                      None \<Rightarrow> s
                                    | Some it \<Rightarrow>
                                        if item_class it = SubmenuMenuActionViewItem
                                        then (case container it of
                                                Some c \<Rightarrow> focusItemByElement c s
                                              | None \<Rightarrow> s)
                                        else s)
                          in onClick a s0)
                    else s)
                 in if length actions > 1
                    then (case actions of
                            [] \<Rightarrow> s1
                          | a # rest \<Rightarrow>
                              (case (case item_at s1 a of None \<Rightarrow> None | Some it \<Rightarrow> container it) of
                                 Some c \<Rightarrow>
                                   (focusItemByElement c s1)
                                     \<lparr>mnemonics := AList.update key (rest @ [a]) (mnemonics s1)\<rparr>
                               | None \<Rightarrow>
                                   s1\<lparr>mnemonics := AList.update key rest (mnemonics s1)\<rparr>))
                    else s1))
      else s)"

definition KEY_DOWN_linux :: "KeyCode \<Rightarrow> menu \<Rightarrow> menu" where
  \<comment> \<open>the listener registered when \<open>isLinux\<close>\<close>
  "KEY_DOWN_linux k s =
     (if isLinux s
      then (if k = Home \<or> k = PageUp
            then focusNext (s\<lparr>focusedItem := Some (int (length (viewItems s)) - 1)\<rparr>)
            else if k = End \<or> k = PageDown
            then focusPrevious (s\<lparr>focusedItem := Some 0\<rparr>)
            else s)
      else s)"

subsection \<open>The constructor of the menu\<close>

definition register_mnemonic :: "view_item \<Rightarrow> nat \<Rightarrow> menu \<Rightarrow> menu" where
  \<comment> \<open>the block \<open>if (options.enableMnemonics) { ... }\<close> of \<open>doGetActionViewItem\<close>, for an
      item view that will stand at position \<open>i\<close>\<close>
  "register_mnemonic it i s =
     (if enableMnemonics (options s)
      then (case getMnemonic it of
              None \<Rightarrow> s
            | Some mn \<Rightarrow>
                if mn \<noteq> [] \<and> isEnabled it
                then (let actionViewItems =
                            (case map_of (mnemonics s) mn of Some l \<Rightarrow> l | None \<Rightarrow> [])
                      in s\<lparr>mnemonics := AList.update mn (actionViewItems @ [i]) (mnemonics s)\<rparr>)
                else s)
      else s)"

definition doGetActionViewItem :: "action \<Rightarrow> menu \<Rightarrow> view_item \<times> menu" where
  \<comment> \<open>the view is returned with the menu, whose index of mnemonics may have grown.
      A separator gets a \<open>MenuSeparatorActionViewItem\<close>, which has no mnemonic and is
      never registered; of its fields only the class and the element matter here.\<close>
  "doGetActionViewItem a s =
     (case a of
        Separator l e \<Rightarrow> (new_item MenuSeparatorActionViewItem a None False, s)
      | SubmenuAction l e es \<Rightarrow>
          (let menuActionViewItem =
                 new_item SubmenuMenuActionViewItem a None (enableMnemonics (options s))
           in (menuActionViewItem, register_mnemonic menuActionViewItem (length (viewItems s)) s))
      | Action l e \<Rightarrow>
          (let menuActionViewItem =
                 new_item BaseMenuActionViewItem a None (enableMnemonics (options s))
           in (menuActionViewItem, register_mnemonic menuActionViewItem (length (viewItems s)) s)))"

definition push1 :: "action \<Rightarrow> menu \<Rightarrow> menu" where
  \<comment> \<open>Modelled from the spec: \<open>ActionBar.push\<close> is not in src.  The menu "builds one
      item view per action, in order": the provider \<open>doGetActionViewItem\<close> makes the
      view, which is given the context of the menu ("opaque value passed to
      activation"), rendered into a new child of the list of actions, and added at the
      end of \<open>viewItems\<close>.\<close>
  "push1 a s =
     (let (item, s1) = doGetActionViewItem a s;
          li = length (actionsList s1);
          i = length (viewItems s1);
          s2 = s1\<lparr>viewItems := viewItems s1 @ [item\<lparr>context_of := ctx (options s1)\<rparr>],
                  actionsList := actionsList s1 @ [li]\<rparr>
      in render i li s2)"

definition push :: "action list \<Rightarrow> menu \<Rightarrow> menu" where
  "push actions s = fold push1 actions s"

definition Menu :: "action list \<Rightarrow> menu_options \<Rightarrow> bool \<Rightarrow> menu" where
  \<comment> \<open>\<open>new Menu(container, actions, options)\<close> on a platform that is Linux or not\<close>
  "Menu actions opts linux =
     push actions
       \<lparr>options = opts, isLinux = linux, viewItems = [], actionsList = [],
        focusedItem = None, mnemonics = [], parentData_submenu = None, heap = [],
        trace = []\<rparr>"

section \<open>Events\<close>

text \<open>
  What can happen to a menu once it is constructed: a call of \<open>trigger\<close>, a key, an
  event on the element of an item view, a timer that fires, the disposal of an item
  view.  The listeners of a submenu item are registered by its \<open>render\<close> and removed by
  its disposal, so an event reaches them while the item has its element; those it
  registers on the container of its submenu are there while it has that container.
\<close>

datatype event =
    Trigger int
  | MnemonicKey string
  | NavigationKey KeyCode
  | MouseOver nat
  | MouseLeave nat
  | FocusOut nat bool
  | KeyUpOpen nat
  | MouseUp nat bool
  | ParentScroll nat
  | SubmenuClose nat
  | ShowTimer nat
  | HideTimer nat bool
  | MouseUpTimer nat
  | Dispose nat

definition on_submenu_item :: "nat \<Rightarrow> (menu \<Rightarrow> menu) \<Rightarrow> menu \<Rightarrow> menu" where
  \<comment> \<open>a listener of the rendered submenu item at a position\<close>
  "on_submenu_item i handler s =
     (case item_at s i of
        None \<Rightarrow> s
      | Some it \<Rightarrow>
          if item_class it = SubmenuMenuActionViewItem \<and> element it \<noteq> None
          then handler s else s)"

fun step :: "event \<Rightarrow> menu \<Rightarrow> menu" where
  "step (Trigger idx) s = trigger idx s"
| "step (MnemonicKey k) s = KEY_DOWN_mnemonic k s"
| "step (NavigationKey k) s = KEY_DOWN_linux k s"
| "step (MouseOver i) s = on_submenu_item i (MOUSE_OVER i) s"
| "step (MouseLeave i) s = on_submenu_item i (MOUSE_LEAVE i) s"
| "step (FocusOut i focusInside) s = on_submenu_item i (FOCUS_OUT i focusInside) s"
| "step (KeyUpOpen i) s = on_submenu_item i (KEY_UP_open i) s"
| "step (MouseUp i defaultPrevented) s = MOUSE_UP i defaultPrevented s"
| "step (ParentScroll i) s = on_submenu_item i (onScroll i) s"
| "step (SubmenuClose i) s =
     (case item_at s i of
        None \<Rightarrow> s
      | Some it \<Rightarrow>
          if item_class it = SubmenuMenuActionViewItem \<and> submenuContainer it
          then submenu_close i s else s)"
| "step (ShowTimer i) s = showScheduler_fire i s"
| "step (HideTimer i focusInside) s = hideScheduler_fire i focusInside s"
| "step (MouseUpTimer i) s = runOnceToEnableMouseUp_fire i s"
| "step (Dispose i) s =
     (case item_at s i of
        None \<Rightarrow> s
      | Some it \<Rightarrow>
          if item_class it = SubmenuMenuActionViewItem
          then SubmenuMenuActionViewItem_dispose i s
          else upd_item i BaseActionViewItem_dispose s)"

definition run :: "event list \<Rightarrow> menu \<Rightarrow> menu" where
  "run evs s = fold step evs s"

section \<open>Open submenus\<close>

definition open_menus :: "menu \<Rightarrow> nat list" where
  \<comment> \<open>the child menus that were constructed and are not disposed\<close>
  "open_menus s = filter (\<lambda>m. \<not> disposed (heap s ! m)) [0..<length (heap s)]"

fun track :: "effect \<Rightarrow> nat list option \<Rightarrow> nat list option" where
  \<comment> \<open>reading a trace: the child menus open so far, or \<open>None\<close> once a child menu was
      constructed while another was open\<close>
  "track e None = None"
| "track (Constructed m) (Some opn) = (if opn = [] then Some [m] else None)"
| "track (Disposed m) (Some opn) = Some (removeAll m opn)"
| "track e (Some opn) = Some opn"

definition one_open :: "menu \<Rightarrow> bool" where
  \<comment> \<open>the invariant of a level: the trace was read without failure and accounts for
      the open child menus, of which there is at most one, the one in the slot\<close>
  "one_open s \<longleftrightarrow>
     fold track (trace s) (Some []) = Some (open_menus s) \<and>
     length (open_menus s) \<le> 1 \<and>
     set (open_menus s) \<subseteq> set_option (parentData_submenu s)"

section \<open>The constructed menu\<close>

definition fixed :: "view_item \<Rightarrow> item_class \<times> action \<times> any \<times> nat option" where
  \<comment> \<open>the fields of an item view that are set at construction\<close>
  "fixed it = (item_class it, action_of it, context_of it, container it)"

definition static :: "menu \<Rightarrow> (item_class \<times> action \<times> any \<times> nat option) list \<times> nat list \<times> menu_options \<times> bool" where
  \<comment> \<open>the part of a menu that no handler changes\<close>
  "static s = (map fixed (viewItems s), actionsList s, options s, isLinux s)"

definition view_of :: "menu_options \<Rightarrow> action \<Rightarrow> nat \<Rightarrow> item_class \<times> action \<times> any \<times> nat option" where
  \<comment> \<open>the fixed fields of the item view built for an action at a position\<close>
  "view_of opts a i =
     (case a of
        Separator l e \<Rightarrow> (MenuSeparatorActionViewItem, a, ctx opts, None)
      | SubmenuAction l e es \<Rightarrow> (SubmenuMenuActionViewItem, a, ctx opts, Some i)
      | Action l e \<Rightarrow> (BaseMenuActionViewItem, a, ctx opts, Some i))"

definition key_of :: "menu_options \<Rightarrow> action \<Rightarrow> string option" where
  \<comment> \<open>the mnemonic under which the item view of an action is registered, if any\<close>
  "key_of opts a =
     (case a of
        Separator l e \<Rightarrow> None
      | _ \<Rightarrow>
          (case BaseMenuActionViewItem_mnemonic None (enableMnemonics opts) (label a) of
             None \<Rightarrow> None
           | Some mn \<Rightarrow> if mn \<noteq> [] \<and> enabled a then Some mn else None))"

definition hovered :: "menu \<Rightarrow> nat \<Rightarrow> bool" where
  \<comment> \<open>the item view at a position believes that the pointer is over it\<close>
  "hovered s i = (case item_at s i of None \<Rightarrow> False | Some it \<Rightarrow> mouseOver it)"

fun is_dispatch :: "string \<Rightarrow> event \<Rightarrow> bool" where
  \<comment> \<open>the event is a key-down whose key, in lower case, is \<open>k\<close>\<close>
  "is_dispatch k (MnemonicKey K) = (toLocaleLowerCase K = k)"
| "is_dispatch k e = False"

definition dispatches :: "string \<Rightarrow> event list \<Rightarrow> nat" where
  \<comment> \<open>how many times the mnemonic \<open>k\<close> was dispatched\<close>
  "dispatches k evs = length (filter (is_dispatch k) evs)"

definition entry :: "menu \<Rightarrow> string \<Rightarrow> nat list" where
  \<comment> \<open>the item views the index of mnemonics holds for a key\<close>
  "entry s k = (case map_of (mnemonics s) k of None \<Rightarrow> [] | Some l \<Rightarrow> l)"

text \<open>Menus for examples.\<close>

abbreviation two_submenus :: menu where
  "two_submenus \<equiv>
     Menu [SubmenuAction ''&File'' True [], SubmenuAction ''&Edit'' True []]
       \<lparr>ctx = Undefined, enableMnemonics = True\<rparr> False"


abbreviation open_recent_close :: menu where
  "open_recent_close \<equiv>
     Menu [Separator [] False, Action ''&Open'' True, SubmenuAction ''&Recent'' True [],
           Action ''&Close'' False]
       \<lparr>ctx = Undefined, enableMnemonics = False\<rparr> True"

abbreviation fruit :: menu where
  "fruit \<equiv>
     Menu [Action ''&Apple'' True, Action ''&Avocado'' False, Separator [] False,
           SubmenuAction ''&Apricot'' True [], Action ''B&anana'' True]
       \<lparr>ctx = Undefined, enableMnemonics = True\<rparr> False"

section \<open>The rule for mnemonics, as the specification words it\<close>

text \<open>
  A marker is a \<open>&\<close> that no \<open>&\<close> precedes and that a character follows which is
  neither white space nor \<open>&\<close>; the mnemonic is that character.  The parenthesised
  form is a marker between brackets.
\<close>

definition marker_at :: "string \<Rightarrow> nat \<Rightarrow> bool" where
  \<comment> \<open>position \<open>p\<close> of the label holds a marker\<close>
  "marker_at s p \<longleftrightarrow>
     Suc p < length s \<and> s ! p = CHR ''&'' \<and> (p = 0 \<or> s ! (p - 1) \<noteq> CHR ''&'') \<and>
     mnemonic_char (s ! Suc p)"

definition paren_at :: "string \<Rightarrow> nat \<Rightarrow> bool" where
  \<comment> \<open>the marker at \<open>p\<close> and its character stand between brackets\<close>
  "paren_at s p \<longleftrightarrow> 0 < p \<and> s ! (p - 1) = CHR ''('' \<and> p + 2 < length s \<and> s ! (p + 2) = CHR '')''"

definition match_for :: "string \<Rightarrow> nat \<Rightarrow> regexp_match" where
  \<comment> \<open>what the regular expression reports for the marker at \<open>p\<close>\<close>
  "match_for s p =
     (if paren_at s p
      then \<lparr>index = p - 1, matched = [s ! (p - 1), s ! p, s ! Suc p, s ! (p + 2)],
            group1 = Some [s ! Suc p], group2 = None, group3 = None\<rparr>
      else if p = 0
      then \<lparr>index = 0, matched = [s ! 0, s ! 1],
            group1 = None, group2 = Some [], group3 = Some [s ! 1]\<rparr>
      else \<lparr>index = p - 1, matched = [s ! (p - 1), s ! p, s ! Suc p],
            group1 = None, group2 = Some [s ! (p - 1)], group3 = Some [s ! Suc p]\<rparr>)"

definition spec_mnemonic :: "string \<Rightarrow> string option" where
  \<comment> \<open>the character after the first marker, in lower case\<close>
  "spec_mnemonic s =
     map_option (\<lambda>p. [lower_char (s ! Suc p)]) (find (marker_at s) [0..<length s])"

section \<open>The regular expression finds the first marker\<close>

lemma find_marker_step:
  "find (marker_at L) [lo..<length L] =
     (if marker_at L lo then Some lo else find (marker_at L) [Suc lo..<length L])"
proof (cases "lo < length L")
  case True
  then show ?thesis by (simp add: upt_conv_Cons)
next
  case False
  then have "\<not> marker_at L lo" by (simp add: marker_at_def)
  with False show ?thesis by simp
qed

lemma at_start:
  "MENU_MNEMONIC_REGEX_at True (a # t) =
     (if marker_at (a # t) 0 then Some (match_for (a # t) 0)
      else if marker_at (a # t) 1 then Some ((match_for (a # t) 1)\<lparr>index := 0\<rparr>)
      else None)"
  by (auto simp: MENU_MNEMONIC_REGEX_at_def marker_at_def match_for_def paren_at_def split: list.splits)

lemma at_later:
  "MENU_MNEMONIC_REGEX_at False (a # t) =
     (if marker_at (pre @ a # t) (Suc (length pre))
      then Some ((match_for (pre @ a # t) (Suc (length pre)))\<lparr>index := 0\<rparr>)
      else None)"
  by (auto simp: MENU_MNEMONIC_REGEX_at_def marker_at_def match_for_def paren_at_def nth_append split: list.splits)

lemma match_for_index: "index (match_for L p) = p - 1"
  by (simp add: match_for_def)

lemma from_later:
  "pre \<noteq> [] \<Longrightarrow>
   MENU_MNEMONIC_REGEX_from (length pre) s =
     map_option (match_for (pre @ s))
       (find (marker_at (pre @ s)) [Suc (length pre)..<length (pre @ s)])"
proof (induction s arbitrary: pre)
  case Nil
  then show ?case by simp
next
  case (Cons a t)
  let ?L = "pre @ a # t"
  have ih: "MENU_MNEMONIC_REGEX_from (Suc (length pre)) t =
      map_option (match_for ?L) (find (marker_at ?L) [Suc (Suc (length pre))..<length ?L])"
    using Cons.IH [of "pre @ [a]"] by simp
  have idx: "(match_for ?L (Suc (length pre)))\<lparr>index := length pre\<rparr> = match_for ?L (Suc (length pre))"
    by (simp add: match_for_def)
  show ?case
    using Cons.prems
    by (subst find_marker_step) (simp add: at_later [of a t pre] ih idx)
qed

lemma match_for_index_upd: "(match_for L p)\<lparr>index := p - 1\<rparr> = match_for L p"
  by (simp add: match_for_def)

lemma exec_eq:
  "MENU_MNEMONIC_REGEX_exec L = map_option (match_for L) (find (marker_at L) [0..<length L])"
proof (cases L)
  case Nil
  then show ?thesis by (simp add: MENU_MNEMONIC_REGEX_exec_def)
next
  case (Cons a t)
  have later: "MENU_MNEMONIC_REGEX_from (Suc 0) t =
      map_option (match_for L) (find (marker_at L) [Suc (Suc 0)..<length L])"
    using from_later [of "[a]" t] Cons by simp
  have idx0: "(match_for L 0)\<lparr>index := 0\<rparr> = match_for L 0"
    using match_for_index_upd [where L = L and p = 0] by simp
  have idx1: "(match_for L (Suc 0))\<lparr>index := 0\<rparr> = match_for L (Suc 0)"
    using match_for_index_upd [where L = L and p = "Suc 0"] by simp
  have f: "find (marker_at L) [0..<length L] =
      (if marker_at L 0 then Some 0
       else if marker_at L (Suc 0) then Some (Suc 0)
       else find (marker_at L) [Suc (Suc 0)..<length L])"
    by (simp only: find_marker_step [where L = L and lo = 0] find_marker_step [where L = L and lo = "Suc 0"])
  have "MENU_MNEMONIC_REGEX_exec L =
      (case MENU_MNEMONIC_REGEX_at True L of
         Some m \<Rightarrow> Some (m\<lparr>index := 0\<rparr>)
       | None \<Rightarrow> MENU_MNEMONIC_REGEX_from (Suc 0) t)"
    by (simp add: MENU_MNEMONIC_REGEX_exec_def Cons)
  also have "\<dots> =
      (if marker_at L 0 then Some (match_for L 0)
       else if marker_at L (Suc 0) then Some (match_for L (Suc 0))
       else map_option (match_for L) (find (marker_at L) [Suc (Suc 0)..<length L]))"
    using at_start [of a t] by (simp add: Cons [symmetric] later idx0 idx1)
  also have "\<dots> = map_option (match_for L) (find (marker_at L) [0..<length L])"
    by (simp only: f) simp
  finally show ?thesis .
qed

lemma mnemonic_of_match_for: "mnemonic_of_match (match_for L p) = [lower_char (L ! Suc p)]"
  by (simp add: mnemonic_of_match_def match_for_def toLocaleLowerCase_def)

lemma constructor_mnemonic:
  "BaseMenuActionViewItem_mnemonic opt en l =
     (if opt \<noteq> Some False \<and> en then spec_mnemonic l else None)"
proof -
  have "spec_mnemonic [] = None" by (simp add: spec_mnemonic_def)
  then show ?thesis
    by (cases "find (marker_at l) [0..<length l]")
       (auto simp: BaseMenuActionViewItem_mnemonic_def spec_mnemonic_def exec_eq
          mnemonic_of_match_for split: option.splits)
qed

lemma remove_marker:
  assumes "marker_at l p"
  shows "take (index (match_for l p)) l @
           (if group1 (match_for l p) = None
            then (case group2 (match_for l p) of None \<Rightarrow> [] | Some t \<Rightarrow> t) @
                 (case group3 (match_for l p) of None \<Rightarrow> [] | Some t \<Rightarrow> t)
            else []) @
           drop (index (match_for l p) + length (matched (match_for l p))) l =
         (if paren_at l p then take (p - 1) l @ drop (p + 3) l else take p l @ drop (Suc p) l)"
proof (cases "paren_at l p")
  case True
  then show ?thesis by (simp add: match_for_def paren_at_def numeral_3_eq_3)
next
  case False
  from assms have len: "Suc p < length l" by (simp add: marker_at_def)
  show ?thesis
  proof (cases p)
    case 0
    with len have "drop (Suc 0) l = l ! Suc 0 # drop (Suc (Suc 0)) l"
      by (simp add: Cons_nth_drop_Suc)
    with False 0 show ?thesis by (simp add: match_for_def numeral_2_eq_2)
  next
    case (Suc q)
    with len have a: "take (Suc q) l = take q l @ [l ! q]"
      by (simp add: take_Suc_conv_app_nth)
    from Suc len have b: "drop (Suc (Suc q)) l = l ! Suc (Suc q) # drop (Suc (Suc (Suc q))) l"
      by (simp add: Cons_nth_drop_Suc)
    from False Suc show ?thesis by (simp add: match_for_def a b)
  qed
qed

lemma find_marker: "find (marker_at l) xs = Some p \<Longrightarrow> marker_at l p"
  by (auto simp: find_Some_iff)

lemma cleanMnemonic_eq:
  "cleanMnemonic l =
     (case find (marker_at l) [0..<length l] of
        None \<Rightarrow> l
      | Some p \<Rightarrow>
          if paren_at l p then trim (take (p - 1) l @ drop (p + 3) l)
          else trim (take p l @ drop (Suc p) l))"
proof (cases "find (marker_at l) [0..<length l]")
  case None
  then show ?thesis by (simp add: cleanMnemonic_def exec_eq)
next
  case (Some p)
  then have m: "marker_at l p" by (rule find_marker)
  have g: "(case group1 (match_for l p) of None \<Rightarrow> True | Some g \<Rightarrow> g = []) =
           (group1 (match_for l p) = None)"
    by (simp add: match_for_def)
  show ?thesis
    using remove_marker [OF m] Some
    by (simp add: cleanMnemonic_def exec_eq g Let_def)
qed

lemma mnemonic_Exit: "BaseMenuActionViewItem_mnemonic None True ''E&xit'' = Some ''x''"
  by code_simp

lemma mnemonic_File: "BaseMenuActionViewItem_mnemonic None True ''(&F)ile'' = Some ''f''"
  by code_simp

lemma clean_Exit: "cleanMnemonic ''E&xit'' = ''Exit''"
  by code_simp

lemma clean_File: "cleanMnemonic ''(&F)ile'' = ''ile''"
  by code_simp

lemma clean_first_only: "cleanMnemonic ''&New &File'' = ''New &File''"
  by code_simp

lemma clean_no_match: "cleanMnemonic '' Save &&As '' = '' Save &&As ''"
  by code_simp

section \<open>Mnemonic extraction\<close>

text \<open>
  Claim C4.  The mnemonic an item view parses from the label of its action at
  construction, mnemonics being enabled and the label shown, is the character after
  the first marker of the label, in lower case; the label \<open>E&xit\<close> gives \<open>x\<close> and the
  label \<open>(&F)ile\<close> gives \<open>f\<close>.
\<close>

theorem getMnemonic_rule:
  "getMnemonic (new_item c (Action ''E&xit'' e) None True) = Some ''x'' \<and>
   getMnemonic (new_item c (Action ''(&F)ile'' e) None True) = Some ''f'' \<and>
   getMnemonic (new_item c a opt en) =
     (if opt \<noteq> Some False \<and> en then spec_mnemonic (label a) else None)"
  using mnemonic_Exit mnemonic_File
  by (simp add: getMnemonic_def new_item_def constructor_mnemonic)

theorem getMnemonic_rule_witness:
  "getMnemonic (new_item BaseMenuActionViewItem (Action ''&Open'' True) (Some True) True) =
     spec_mnemonic ''&Open''"
  using getMnemonic_rule [of BaseMenuActionViewItem True "Action ''&Open'' True" "Some True" True]
  by simp

section \<open>Cleaning a label\<close>

lemma trim_spec:
  "\<exists>pre suf. s = pre @ trim s @ suf \<and> (\<forall>c \<in> set pre. is_space c) \<and> (\<forall>c \<in> set suf. is_space c) \<and>
     (trim s = [] \<or> \<not> is_space (hd (trim s)) \<and> \<not> is_space (last (trim s)))"
proof -
  let ?d = "dropWhile is_space s"
  let ?pre = "takeWhile is_space s"
  let ?suf = "rev (takeWhile is_space (rev ?d))"
  have d: "?d = trim s @ ?suf"
  proof -
    have "rev (takeWhile is_space (rev ?d) @ dropWhile is_space (rev ?d)) = rev (rev ?d)"
      by (simp only: takeWhile_dropWhile_id)
    then have "rev (dropWhile is_space (rev ?d)) @ rev (takeWhile is_space (rev ?d)) = ?d"
      by (simp only: rev_append rev_rev_ident)
    then show ?thesis by (simp only: trim_def)
  qed
  have s: "s = ?pre @ trim s @ ?suf"
    using d takeWhile_dropWhile_id [of is_space s] by simp
  have p: "\<forall>c \<in> set ?pre. is_space c" by (auto dest: set_takeWhileD)
  have q: "\<forall>c \<in> set ?suf. is_space c" by (auto dest: set_takeWhileD)
  have e: "trim s = [] \<or> \<not> is_space (hd (trim s)) \<and> \<not> is_space (last (trim s))"
  proof (cases "trim s = []")
    case True
    then show ?thesis by simp
  next
    case False
    then have ne: "dropWhile is_space (rev ?d) \<noteq> []" by (simp add: trim_def)
    then have "\<not> is_space (hd (dropWhile is_space (rev ?d)))" by (rule hd_dropWhile)
    with ne have l: "\<not> is_space (last (trim s))" by (simp add: trim_def last_rev)
    from False d have "hd ?d = hd (trim s)" and "?d \<noteq> []"
      by (metis hd_append2, metis append_is_Nil_conv)
    then have "\<not> is_space (hd (trim s))" using hd_dropWhile [of is_space s] by simp
    with l show ?thesis by simp
  qed
  from s p q e show ?thesis by blast
qed

lemma clean_outer_space: "cleanMnemonic '' E&xit '' = ''Exit''"
  by code_simp

lemma clean_paren_tail: "cleanMnemonic ''File (&F)'' = ''File''"
  by code_simp

text \<open>
  Claim C10, as the code has it.  \<open>cleanMnemonic\<close> returns a label without marker as
  it is, outer white space included.  Otherwise it removes the first marker only: the
  \<open>&\<close> alone when the marker is in the text, the whole group with its brackets and its
  character when it is parenthesised; in both forms it then trims the result, which
  is what remains between the outer white space and neither starts nor ends with
  white space.  So \<open>E&xit\<close> becomes \<open>Exit\<close> and \<open>(&F)ile\<close> becomes \<open>ile\<close>.
\<close>

theorem cleanMnemonic_forms:
  "cleanMnemonic ''E&xit'' = ''Exit'' \<and>
   cleanMnemonic ''(&F)ile'' = ''ile'' \<and>
   cleanMnemonic ''&New &File'' = ''New &File'' \<and>
   cleanMnemonic '' Save &&As '' = '' Save &&As '' \<and>
   cleanMnemonic '' E&xit '' = ''Exit'' \<and>
   cleanMnemonic ''File (&F)'' = ''File'' \<and>
   cleanMnemonic l =
     (case find (marker_at l) [0..<length l] of
        None \<Rightarrow> l
      | Some p \<Rightarrow>
          if paren_at l p then trim (take (p - 1) l @ drop (p + 3) l)
          else trim (take p l @ drop (Suc p) l)) \<and>
   (\<forall>p. find (marker_at l) [0..<length l] = Some p \<longrightarrow>
      (\<exists>pre suf.
         (if paren_at l p then take (p - 1) l @ drop (p + 3) l else take p l @ drop (Suc p) l) =
           pre @ cleanMnemonic l @ suf \<and>
         (\<forall>c \<in> set pre. is_space c) \<and> (\<forall>c \<in> set suf. is_space c) \<and>
         (cleanMnemonic l = [] \<or>
          \<not> is_space (hd (cleanMnemonic l)) \<and> \<not> is_space (last (cleanMnemonic l)))))"
proof -
  have "\<forall>p. find (marker_at l) [0..<length l] = Some p \<longrightarrow>
      (\<exists>pre suf.
         (if paren_at l p then take (p - 1) l @ drop (p + 3) l else take p l @ drop (Suc p) l) =
           pre @ cleanMnemonic l @ suf \<and>
         (\<forall>c \<in> set pre. is_space c) \<and> (\<forall>c \<in> set suf. is_space c) \<and>
         (cleanMnemonic l = [] \<or>
          \<not> is_space (hd (cleanMnemonic l)) \<and> \<not> is_space (last (cleanMnemonic l))))"
  proof (intro allI impI)
    fix p
    assume f: "find (marker_at l) [0..<length l] = Some p"
    let ?cut = "if paren_at l p then take (p - 1) l @ drop (p + 3) l else take p l @ drop (Suc p) l"
    from f have "cleanMnemonic l = trim ?cut" by (simp add: cleanMnemonic_eq)
    with trim_spec [of ?cut]
    show "\<exists>pre suf. ?cut = pre @ cleanMnemonic l @ suf \<and>
         (\<forall>c \<in> set pre. is_space c) \<and> (\<forall>c \<in> set suf. is_space c) \<and>
         (cleanMnemonic l = [] \<or>
          \<not> is_space (hd (cleanMnemonic l)) \<and> \<not> is_space (last (cleanMnemonic l)))"
      by simp
  qed
  with clean_Exit clean_File clean_first_only clean_no_match clean_outer_space clean_paren_tail
    cleanMnemonic_eq [of l]
  show ?thesis by blast
qed

theorem cleanMnemonic_forms_witness:
  "cleanMnemonic ''Save &As'' = ''Save As'' \<and>
   (\<exists>pre suf. '' Exit '' = pre @ cleanMnemonic '' E&xit '' @ suf \<and>
      \<not> is_space (hd (cleanMnemonic '' E&xit '')) \<and> \<not> is_space (last (cleanMnemonic '' E&xit '')))"
proof -
  have "find (marker_at ''Save &As'') [0..<length ''Save &As''] = Some 5"
    by code_simp
  moreover have "\<not> paren_at ''Save &As'' 5"
    by code_simp
  ultimately have 1: "cleanMnemonic ''Save &As'' = ''Save As''"
    using cleanMnemonic_forms [of "''Save &As''"] by (simp add: trim_def is_space_def)
  have f: "find (marker_at '' E&xit '') [0..<length '' E&xit ''] = Some 2"
    by code_simp
  have np: "\<not> paren_at '' E&xit '' 2" by code_simp
  have cut: "take 2 '' E&xit '' @ drop (Suc 2) '' E&xit '' = '' Exit ''" by simp
  have ne: "cleanMnemonic '' E&xit '' \<noteq> []"
    using cleanMnemonic_forms [of "'' E&xit ''"] by simp
  from cleanMnemonic_forms [of "'' E&xit ''"] f
  have "\<exists>pre suf.
         (if paren_at '' E&xit '' 2 then take (2 - 1) '' E&xit '' @ drop (2 + 3) '' E&xit ''
          else take 2 '' E&xit '' @ drop (Suc 2) '' E&xit '') =
           pre @ cleanMnemonic '' E&xit '' @ suf \<and>
         (\<forall>c \<in> set pre. is_space c) \<and> (\<forall>c \<in> set suf. is_space c) \<and>
         (cleanMnemonic '' E&xit '' = [] \<or>
          \<not> is_space (hd (cleanMnemonic '' E&xit '')) \<and>
          \<not> is_space (last (cleanMnemonic '' E&xit '')))"
    by blast
  with np ne have "\<exists>pre suf. take 2 '' E&xit '' @ drop (Suc 2) '' E&xit '' =
        pre @ cleanMnemonic '' E&xit '' @ suf \<and>
      \<not> is_space (hd (cleanMnemonic '' E&xit '')) \<and> \<not> is_space (last (cleanMnemonic '' E&xit ''))"
    by (simp only: if_False) blast
  with 1 show ?thesis by (simp only: cut) 
qed

text \<open>
  The in-text form loses more than its marker when the label has outer white space:
  the claim C10 as stated fails there.
\<close>

theorem cleanMnemonic_in_text_counterexample:
  "cleanMnemonic '' E&xit '' = ''Exit'' \<and> cleanMnemonic '' E&xit '' \<noteq> '' Exit ''"
  by code_simp

section \<open>The label \<open>Save &&As\<close>\<close>

lemma SaveAs_exec: "MENU_MNEMONIC_REGEX_exec ''Save &&As'' = None"
  by code_simp

lemma SaveAs_clean: "cleanMnemonic ''Save &&As'' = ''Save &&As''"
  by (simp add: cleanMnemonic_def SaveAs_exec)

lemma SaveAs_literal: "replace_all ''&&'' ''&'' ''Save &&As'' = ''Save &As''"
  by code_simp

lemma SaveAs_trim: "trim ''Save &As'' = ''Save &As''"
  by code_simp

lemma Save_As_escape: "strings_escape ''Save &As'' = ''Save &amp;As''" by code_simp
lemma Save_As_escaped_exec: "MENU_ESCAPED_MNEMONIC_REGEX_exec ''Save &amp;As'' 0 = Some \<lparr>index = 5, matched = ''&amp;A'', group1 = None, group2 = Some ''&amp;'', group3 = Some ''A''\<rparr>" by code_simp

lemma Save_As_skip_escaped: "skip_escaped ''Save &amp;As'' 0 = Some \<lparr>index = 5, matched = ''&amp;A'', group1 = None, group2 = Some ''&amp;'', group3 = Some ''A''\<rparr>"
  by (subst skip_escaped.simps) (simp add: Save_As_escaped_exec)

lemma Save_As_trim: "trim (replace_all ''&amp;&amp;'' ''&amp;'' (''Save '' @ underline ''A'' @ ''s'')) = ''Save '' @ underline ''A'' @ ''s''"
  by code_simp

lemma Save_As_exec: "MENU_MNEMONIC_REGEX_exec ''Save &As'' = Some \<lparr>index = 4, matched = '' &A'', group1 = None, group2 = Some '' '', group3 = Some ''A''\<rparr>"
  by code_simp

lemma Save_As_clean: "cleanMnemonic ''Save &As'' = ''Save As''" by code_simp

lemma Save_As_splice: "take 5 ''Save &amp;As'' @ underline ''A'' @ drop (5 + length ''&amp;A'') ''Save &amp;As'' = ''Save '' @ underline ''A'' @ ''s''"
  by simp

lemma SaveAs_updateLabel:
  "updateLabel (new_item c (Action ''Save &&As'' e) None en) d =
     d\<lparr>aria_label := Some ''Save &As'', innerHTML := ''Save &As''\<rparr>"
  by (simp add: updateLabel_def new_item_def SaveAs_exec SaveAs_clean SaveAs_literal SaveAs_trim
      Let_def del: replace_all.simps)

lemma SaveAs_mnemonic: "BaseMenuActionViewItem_mnemonic None en ''Save &&As'' = None"
  by (simp add: BaseMenuActionViewItem_mnemonic_def SaveAs_exec)

lemma Save_As_updateLabel:
  "innerHTML (updateLabel (new_item c (Action ''Save &As'' e) None True) d) =
     ''Save '' @ underline ''A'' @ ''s''"
  using Save_As_trim Save_As_splice
  by (simp add: updateLabel_def new_item_def Let_def Save_As_escape Save_As_skip_escaped Save_As_exec Save_As_clean del: replace_all.simps append.simps)

lemma Save_As_mnemonic: "BaseMenuActionViewItem_mnemonic None True ''Save &As'' = Some ''a''"
  by code_simp

text \<open>
  Claim C5, as the code has it.  A doubled \<open>&\<close> is an escaped ampersand and never a
  marker: the label \<open>Save &&As\<close> is rendered as the literal \<open>Save &As\<close> with no
  underlined character whether mnemonics are enabled or not, its item view has no
  mnemonic and \<open>aria-keyshortcuts\<close> is left alone.  It is the label \<open>Save &As\<close> that,
  with mnemonics enabled, shows an underlined \<open>A\<close> and has the mnemonic \<open>a\<close>.
\<close>

theorem SaveAs_literal_ampersand:
  "innerHTML (updateLabel (new_item c (Action ''Save &&As'' e) None en) d) = ''Save &As'' \<and>
   aria_keyshortcuts (updateLabel (new_item c (Action ''Save &&As'' e) None en) d) =
     aria_keyshortcuts d \<and>
   getMnemonic (new_item c (Action ''Save &&As'' e) None en) = None \<and>
   innerHTML (updateLabel (new_item c (Action ''Save &As'' e) None True) d) =
     ''Save '' @ underline ''A'' @ ''s'' \<and>
   getMnemonic (new_item c (Action ''Save &As'' e) None True) = Some ''a''"
  using SaveAs_updateLabel [of c e en d] Save_As_updateLabel [of c e d]
  by (simp add: getMnemonic_def new_item_def SaveAs_mnemonic Save_As_mnemonic)

text \<open>
  With mnemonics enabled, the label \<open>Save &&As\<close> is rendered without underlined
  character and its item view has no mnemonic: the claim C5 as stated fails there.
\<close>

theorem SaveAs_enabled_counterexample:
  "innerHTML (updateLabel (new_item BaseMenuActionViewItem (Action ''Save &&As'' True) None True)
      \<lparr>innerHTML = [], aria_label = None, aria_keyshortcuts = None\<rparr>) = ''Save &As'' \<and>
   getMnemonic (new_item BaseMenuActionViewItem (Action ''Save &&As'' True) None True) = None"
  using SaveAs_updateLabel [of BaseMenuActionViewItem True True
      "\<lparr>innerHTML = [], aria_label = None, aria_keyshortcuts = None\<rparr>"]
  by (simp add: getMnemonic_def new_item_def SaveAs_mnemonic)

section \<open>Basic facts about the state\<close>

lemma upd_item_fields [simp]:
  "parentData_submenu (upd_item i f s) = parentData_submenu s"
  "heap (upd_item i f s) = heap s"
  "trace (upd_item i f s) = trace s"
  "length (viewItems (upd_item i f s)) = length (viewItems s)"
  by (simp_all add: upd_item_def)

lemma emit_fields [simp]:
  "parentData_submenu (emit e s) = parentData_submenu s"
  "heap (emit e s) = heap s"
  "trace (emit e s) = trace s @ [e]"
  "viewItems (emit e s) = viewItems s"
  by (simp_all add: emit_def)

lemma Menu_dispose_fields [simp]:
  "parentData_submenu (Menu_dispose m s) = parentData_submenu s"
  "length (heap (Menu_dispose m s)) = length (heap s)"
  "trace (Menu_dispose m s) = trace s @ [Disposed m]"
  "viewItems (Menu_dispose m s) = viewItems s"
  by (simp_all add: Menu_dispose_def)

lemma upd_item_at:
  "item_at (upd_item i f s) j =
     (if j = i then map_option f (item_at s i) else item_at s j)"
  by (simp add: item_at_def upd_item_def)

lemma item_at_same [simp]:
  "item_at (emit e s) j = item_at s j"
  "item_at (Menu_dispose m s) j = item_at s j"
  "item_at (s\<lparr>parentData_submenu := v\<rparr>) j = item_at s j"
  "item_at (s\<lparr>focusedItem := f\<rparr>) j = item_at s j"
  "item_at (s\<lparr>mnemonics := ms\<rparr>) j = item_at s j"
  by (simp_all add: item_at_def)

lemma cleanup_None [simp]:
  "parentData_submenu s = None \<Longrightarrow> cleanupExistingSubmenu i force s = s"
  by (simp add: cleanupExistingSubmenu_def split: option.splits)

lemma focusedItem_kept [simp]:
  "focusedItem (emit e s) = focusedItem s"
  "focusedItem (upd_item i f s) = focusedItem s"
  "focusedItem (Menu_dispose m s) = focusedItem s"
  by (simp_all add: emit_def upd_item_def Menu_dispose_def)

lemma focusedItem_open [simp]:
  "focusedItem (cleanupExistingSubmenu i force s) = focusedItem s"
  "focusedItem (createSubmenu i b s) = focusedItem s"
  by (simp_all add: cleanupExistingSubmenu_def createSubmenu_def Let_def split: option.splits)

lemma open_menus_upd_item [simp]: "open_menus (upd_item i f s) = open_menus s"
  by (simp add: open_menus_def)

lemma open_menus_emit [simp]: "open_menus (emit e s) = open_menus s"
  by (simp add: open_menus_def)

lemma open_menus_slot [simp]: "open_menus (s\<lparr>parentData_submenu := v\<rparr>) = open_menus s"
  by (simp add: open_menus_def)

lemma filter_neq_removeAll: "filter (\<lambda>x. x \<noteq> m \<and> P x) xs = removeAll m (filter P xs)"
  by (induction xs) auto

lemma open_menus_dispose: "open_menus (Menu_dispose m s) = removeAll m (open_menus s)"
proof (cases "m < length (heap s)")
  case True
  have "filter (\<lambda>x. \<not> disposed ((heap s)[m := (heap s ! m)\<lparr>disposed := True\<rparr>] ! x)) [0..<length (heap s)] =
        filter (\<lambda>x. x \<noteq> m \<and> \<not> disposed (heap s ! x)) [0..<length (heap s)]"
  proof (rule filter_cong)
    fix x
    assume "x \<in> set [0..<length (heap s)]"
    with True show "(\<not> disposed ((heap s)[m := (heap s ! m)\<lparr>disposed := True\<rparr>] ! x)) =
        (x \<noteq> m \<and> \<not> disposed (heap s ! x))"
      by (cases "x = m") simp_all
  qed simp
  also have "\<dots> = removeAll m (filter (\<lambda>x. \<not> disposed (heap s ! x)) [0..<length (heap s)])"
    by (rule filter_neq_removeAll)
  finally show ?thesis
    using True by (simp add: open_menus_def Menu_dispose_def emit_def)
next
  case False
  then have "m \<notin> set (open_menus s)" by (simp add: open_menus_def)
  with False show ?thesis by (simp add: Menu_dispose_def open_menus_def)
qed

section \<open>At most one submenu is open\<close>

lemma one_open_upd_item [simp]: "one_open (upd_item i f s) = one_open s"
  by (simp add: one_open_def)

lemma track_other:
  "(\<forall>m. e \<noteq> Constructed m) \<Longrightarrow> (\<forall>m. e \<noteq> Disposed m) \<Longrightarrow> track e x = x"
  by (cases e; cases x) simp_all

lemma one_open_emit:
  "(\<forall>m. e \<noteq> Constructed m) \<Longrightarrow> (\<forall>m. e \<noteq> Disposed m) \<Longrightarrow> one_open (emit e s) = one_open s"
  by (simp add: one_open_def track_other)

lemma length_removeAll_1: "length xs \<le> 1 \<Longrightarrow> length (removeAll m xs) \<le> 1"
  using length_removeAll_less_eq [where xs = xs and x = m] by (rule order_trans)

lemma one_open_Menu_dispose: "one_open s \<Longrightarrow> one_open (Menu_dispose m s)"
  by (auto simp: one_open_def open_menus_dispose length_removeAll_1 simp del: One_nat_def)

lemma one_open_close:
  "one_open s \<Longrightarrow> parentData_submenu s = Some m \<Longrightarrow>
   one_open ((Menu_dispose m s)\<lparr>parentData_submenu := None\<rparr>)"
  by (auto simp: one_open_def open_menus_dispose length_removeAll_1 simp del: One_nat_def)

lemma one_open_cleanupExistingSubmenu:
  "one_open s \<Longrightarrow> one_open (cleanupExistingSubmenu i force s)"
  by (auto simp: cleanupExistingSubmenu_def one_open_close split: option.splits)

lemma one_open_construct:
  assumes "one_open s" and "parentData_submenu s = None"
  shows "one_open (emit (Constructed (length (heap s)))
            (s\<lparr>heap := heap s @ [\<lparr>disposed = False\<rparr>],
               parentData_submenu := Some (length (heap s))\<rparr>))"
proof -
  from assms have "open_menus s = []" by (simp add: one_open_def)
  then have "fold track (trace s) (Some []) = Some []" using assms by (simp add: one_open_def)
  moreover
  from \<open>open_menus s = []\<close>
  have "filter (\<lambda>m. \<not> disposed ((heap s @ [\<lparr>disposed = False\<rparr>]) ! m)) [0..<length (heap s)] = []"
    by (auto simp: open_menus_def filter_empty_conv nth_append)
  ultimately show ?thesis
    by (simp add: one_open_def open_menus_def emit_def)
qed

lemma one_open_createSubmenu:
  "one_open s \<Longrightarrow> one_open (createSubmenu i selectFirstItem s)"
  by (auto simp: createSubmenu_def Let_def one_open_emit one_open_construct split: option.splits)

lemma one_open_focus_fields [simp]:
  "one_open (s\<lparr>focusedItem := f\<rparr>) = one_open s"
  "one_open (s\<lparr>mnemonics := ms\<rparr>) = one_open s"
  by (simp_all add: one_open_def open_menus_def)

lemma one_open_updateFocus [simp]: "one_open (updateFocus s) = one_open s"
  by (simp add: updateFocus_def one_open_emit)

lemma one_open_setFocusedItem [simp]: "one_open (setFocusedItem e s) = one_open s"
  by (simp add: setFocusedItem_def split: option.splits)

lemma one_open_focusItemByElement [simp]: "one_open (focusItemByElement e s) = one_open s"
  by (simp add: focusItemByElement_def Let_def)

lemma one_open_open:
  "one_open s \<Longrightarrow> one_open (SubmenuMenuActionViewItem_open i selectFirst s)"
  by (simp add: SubmenuMenuActionViewItem_open_def one_open_createSubmenu
      one_open_cleanupExistingSubmenu)

lemma one_open_onClick: "one_open s \<Longrightarrow> one_open (onClick i s)"
  by (simp add: onClick_def one_open_createSubmenu one_open_cleanupExistingSubmenu one_open_emit
      split: option.splits)

lemma one_open_showScheduler_fire: "one_open s \<Longrightarrow> one_open (showScheduler_fire i s)"
  by (simp add: showScheduler_fire_def showScheduler_callback_def one_open_createSubmenu
      one_open_cleanupExistingSubmenu split: option.splits)

lemma one_open_hideScheduler_fire:
  "one_open s \<Longrightarrow> one_open (hideScheduler_fire i focusInside s)"
  by (simp add: hideScheduler_fire_def hideScheduler_callback_def one_open_emit
      one_open_cleanupExistingSubmenu split: option.splits)

lemma one_open_dispose: "one_open s \<Longrightarrow> one_open (SubmenuMenuActionViewItem_dispose i s)"
  by (simp add: SubmenuMenuActionViewItem_dispose_def Let_def one_open_Menu_dispose
      split: option.splits)

lemma one_open_trigger: "one_open s \<Longrightarrow> one_open (trigger idx s)"
  by (simp add: trigger_def ActionBar_focus_index_def ActionBar_run_def one_open_open
      one_open_emit split: option.splits)

lemma one_open_KEY_DOWN_mnemonic: "one_open s \<Longrightarrow> one_open (KEY_DOWN_mnemonic k s)"
  by (simp add: KEY_DOWN_mnemonic_def Let_def one_open_onClick split: option.splits list.splits)

lemma one_open_KEY_DOWN_linux: "one_open s \<Longrightarrow> one_open (KEY_DOWN_linux k s)"
  by (simp add: KEY_DOWN_linux_def focusNext_def focusPrevious_def Let_def)

lemma one_open_step: "one_open s \<Longrightarrow> one_open (step e s)"
  by (cases e)
     (simp_all add: on_submenu_item_def MOUSE_OVER_def MOUSE_LEAVE_def FOCUS_OUT_def
        KEY_UP_open_def MOUSE_UP_def onScroll_def submenu_close_def
        runOnceToEnableMouseUp_fire_def one_open_trigger one_open_KEY_DOWN_mnemonic
        one_open_KEY_DOWN_linux one_open_createSubmenu one_open_cleanupExistingSubmenu
        one_open_onClick one_open_emit one_open_showScheduler_fire one_open_hideScheduler_fire
        one_open_dispose split: option.splits)

lemma one_open_run: "one_open s \<Longrightarrow> one_open (run evs s)"
  unfolding run_def by (induction evs arbitrary: s) (simp_all add: one_open_step)

lemma one_open_push1 [simp]: "one_open (push1 a s) = one_open s"
  by (cases a)
     (simp_all add: push1_def doGetActionViewItem_def register_mnemonic_def render_def Let_def
        one_open_def open_menus_def upd_item_def split: option.splits)

lemma one_open_push [simp]: "one_open (push actions s) = one_open s"
  unfolding push_def by (induction actions arbitrary: s) simp_all

lemma one_open_Menu: "one_open (Menu actions opts linux)"
proof -
  have "one_open \<lparr>options = opts, isLinux = linux, viewItems = [], actionsList = [],
        focusedItem = None, mnemonics = [], parentData_submenu = None, heap = [],
        trace = []\<rparr>"
    by (simp add: one_open_def open_menus_def)
  then show ?thesis by (simp add: Menu_def)
qed

lemma track_prefix: "fold track (xs @ ys) a = Some opn \<Longrightarrow> \<exists>opn'. fold track xs a = Some opn'"
proof (induction ys arbitrary: opn rule: rev_induct)
  case Nil
  then show ?case by simp
next
  case (snoc y ys)
  then show ?case by (cases "fold track (xs @ ys) a") auto
qed

lemma track_length:
  "fold track es (Some opn) = Some opn' \<Longrightarrow> length opn \<le> 1 \<Longrightarrow> length opn' \<le> 1"
proof (induction es arbitrary: opn)
  case Nil
  then show ?case by simp
next
  case (Cons e es)
  show ?case
  proof (cases "track e (Some opn)")
    case None
    have "fold track es None = None" by (induction es) simp_all
    with Cons.prems None show ?thesis by simp
  next
    case (Some o1)
    with Cons.prems(2) have "length o1 \<le> 1"
      by (cases e) (auto simp: length_removeAll_1 simp del: One_nat_def split: if_splits)
    with Cons.IH [of o1] Cons.prems(1) Some show ?thesis by simp
  qed
qed

text \<open>
  Claim C1.  At a level of the menu, whatever happens after its construction - calls
  of \<open>trigger\<close>, clicks, keys and mnemonics, hover and hide timers, scrolling, disposals -
  at most one child menu is open.  The trace of constructions and disposals shows
  more: whenever a child menu is constructed, every child menu constructed before it
  has been disposed, so that at no point of the trace two of them are open.
\<close>

theorem at_most_one_open_submenu:
  "length (open_menus (run evs (Menu actions opts linux))) \<le> 1 \<and>
   fold track (trace (run evs (Menu actions opts linux))) (Some []) =
     Some (open_menus (run evs (Menu actions opts linux))) \<and>
   (\<exists>opn. fold track (take n (trace (run evs (Menu actions opts linux)))) (Some []) = Some opn \<and>
          length opn \<le> 1)"
proof -
  let ?s = "run evs (Menu actions opts linux)"
  have inv: "one_open ?s" by (rule one_open_run [OF one_open_Menu])
  then have t: "fold track (trace ?s) (Some []) = Some (open_menus ?s)"
    and l: "length (open_menus ?s) \<le> 1"
    by (simp_all add: one_open_def)
  from t have "fold track (take n (trace ?s) @ drop n (trace ?s)) (Some []) = Some (open_menus ?s)"
    by simp
  then obtain opn where o: "fold track (take n (trace ?s)) (Some []) = Some opn"
    by (blast dest: track_prefix)
  then have "length opn \<le> 1" by (rule track_length) simp
  with t l o show ?thesis by blast
qed

theorem at_most_one_open_submenu_witness:
  "length (open_menus (run [Trigger 0, MouseOver 1, ShowTimer 1]
      (Menu [SubmenuAction ''&File'' True [], SubmenuAction ''&Edit'' True []]
         \<lparr>ctx = Undefined, enableMnemonics = True\<rparr> False))) \<le> 1"
  using at_most_one_open_submenu
    [of "[Trigger 0, MouseOver 1, ShowTimer 1]"
        "[SubmenuAction ''&File'' True [], SubmenuAction ''&Edit'' True []]"
        "\<lparr>ctx = Undefined, enableMnemonics = True\<rparr>" False 0]
  by (rule conjunct1)

section \<open>What no handler changes\<close>

lemma static_emit [simp]: "static (emit e s) = static s"
  by (simp add: static_def emit_def)

lemma static_upd_item:
  "(\<And>it. fixed (f it) = fixed it) \<Longrightarrow> static (upd_item i f s) = static s"
  by (simp add: static_def upd_item_def map_update list_update_same_conv)

lemma static_fields [simp]:
  "static (s\<lparr>parentData_submenu := v\<rparr>) = static s"
  "static (s\<lparr>focusedItem := f\<rparr>) = static s"
  "static (s\<lparr>mnemonics := ms\<rparr>) = static s"
  "static (s\<lparr>heap := h\<rparr>) = static s"
  by (simp_all add: static_def)

lemma static_Menu_dispose [simp]: "static (Menu_dispose m s) = static s"
  by (simp add: Menu_dispose_def)

lemma static_cleanupExistingSubmenu [simp]: "static (cleanupExistingSubmenu i force s) = static s"
  by (simp add: cleanupExistingSubmenu_def static_upd_item fixed_def split: option.splits)

lemma static_createSubmenu [simp]: "static (createSubmenu i selectFirstItem s) = static s"
  by (simp add: createSubmenu_def Let_def static_upd_item fixed_def split: option.splits)

lemma static_onClick [simp]: "static (onClick i s) = static s"
  by (simp add: onClick_def split: option.splits)

lemma static_showScheduler_fire [simp]: "static (showScheduler_fire i s) = static s"
  by (simp add: showScheduler_fire_def showScheduler_callback_def static_upd_item fixed_def
      split: option.splits)

lemma static_hideScheduler_fire [simp]: "static (hideScheduler_fire i b s) = static s"
  by (simp add: hideScheduler_fire_def hideScheduler_callback_def static_upd_item fixed_def
      split: option.splits)

lemma static_dispose [simp]: "static (SubmenuMenuActionViewItem_dispose i s) = static s"
  by (simp add: SubmenuMenuActionViewItem_dispose_def BaseActionViewItem_dispose_def Let_def
      static_upd_item fixed_def split: option.splits)

lemma static_focus [simp]:
  "static (updateFocus s) = static s"
  "static (setFocusedItem e s) = static s"
  "static (focusItemByElement e s) = static s"
  "static (focusNext s) = static s"
  "static (focusPrevious s) = static s"
  "static (ActionBar_focus_index idx s) = static s"
  "static (ActionBar_run a c s) = static s"
  by (simp_all add: updateFocus_def setFocusedItem_def focusItemByElement_def focusNext_def
      focusPrevious_def ActionBar_focus_index_def ActionBar_run_def Let_def split: option.splits)

lemma static_trigger [simp]: "static (trigger idx s) = static s"
  by (simp add: trigger_def SubmenuMenuActionViewItem_open_def split: option.splits)

lemma static_KEY_DOWN_mnemonic [simp]: "static (KEY_DOWN_mnemonic k s) = static s"
  by (simp add: KEY_DOWN_mnemonic_def Let_def split: option.splits list.splits)

lemma static_KEY_DOWN_linux [simp]: "static (KEY_DOWN_linux k s) = static s"
  by (simp add: KEY_DOWN_linux_def)

lemma static_step [simp]: "static (step e s) = static s"
  by (cases e)
     (simp_all add: on_submenu_item_def MOUSE_OVER_def MOUSE_LEAVE_def FOCUS_OUT_def
        KEY_UP_open_def MOUSE_UP_def onScroll_def submenu_close_def
        runOnceToEnableMouseUp_fire_def BaseActionViewItem_dispose_def static_upd_item fixed_def
        split: option.splits)

lemma static_run [simp]: "static (run evs s) = static s"
  unfolding run_def by (induction evs arbitrary: s) simp_all

lemma register_fields [simp]:
  "viewItems (register_mnemonic it i s) = viewItems s"
  "actionsList (register_mnemonic it i s) = actionsList s"
  "options (register_mnemonic it i s) = options s"
  "isLinux (register_mnemonic it i s) = isLinux s"
  by (simp_all add: register_mnemonic_def Let_def split: option.splits)

lemma push1_static:
  "static (push1 a s) =
     (map fixed (viewItems s) @ [view_of (options s) a (length (actionsList s))],
      actionsList s @ [length (actionsList s)], options s, isLinux s)"
  by (cases a)
     (simp_all add: push1_def doGetActionViewItem_def Let_def render_def upd_item_def static_def
        fixed_def view_of_def new_item_def)

lemma push_static:
  "length (actionsList s) = length (viewItems s) \<Longrightarrow>
   static (push actions s) =
     (map fixed (viewItems s) @
        map (\<lambda>(i, a). view_of (options s) a i) (enumerate (length (viewItems s)) actions),
      actionsList s @ map fst (enumerate (length (viewItems s)) actions),
      options s, isLinux s)"
proof (induction actions arbitrary: s)
  case Nil
  then show ?case by (simp add: push_def static_def)
next
  case (Cons a actions)
  let ?s1 = "push1 a s"
  from push1_static [of a s] Cons.prems
  have st: "map fixed (viewItems ?s1) = map fixed (viewItems s) @ [view_of (options s) a (length (viewItems s))]"
    and al: "actionsList ?s1 = actionsList s @ [length (viewItems s)]"
    and op: "options ?s1 = options s" and li: "isLinux ?s1 = isLinux s"
    by (simp_all add: static_def)
  from st have len: "length (viewItems ?s1) = Suc (length (viewItems s))"
    by (metis length_append_singleton length_map)
  with al Cons.prems have "length (actionsList ?s1) = length (viewItems ?s1)" by simp
  from Cons.IH [OF this] have "static (push actions ?s1) =
     (map fixed (viewItems ?s1) @
        map (\<lambda>(i, a). view_of (options ?s1) a i) (enumerate (length (viewItems ?s1)) actions),
      actionsList ?s1 @ map fst (enumerate (length (viewItems ?s1)) actions),
      options ?s1, isLinux ?s1)" .
  then show ?case
    by (simp add: push_def st al op li len del: map_fst_enumerate)
qed

lemma Menu_static:
  "static (Menu actions opts linux) =
     (map (\<lambda>(i, a). view_of opts a i) (enumerate 0 actions), [0..<length actions], opts, linux)"
  unfolding Menu_def by (subst push_static) simp_all

lemma reachable_static:
  "static (run evs (Menu actions opts linux)) =
     (map (\<lambda>(i, a). view_of opts a i) (enumerate 0 actions), [0..<length actions], opts, linux)"
  by (simp add: Menu_static)

lemma reachable_items:
  assumes "s = run evs (Menu actions opts linux)"
  shows "length (viewItems s) = length actions"
    and "actionsList s = [0..<length actions]"
    and "options s = opts" and "isLinux s = linux"
    and "i < length actions \<Longrightarrow> fixed (viewItems s ! i) = view_of opts (actions ! i) i"
proof -
  have st: "static s =
     (map (\<lambda>(i, a). view_of opts a i) (enumerate 0 actions), [0..<length actions], opts, linux)"
    unfolding assms by (rule reachable_static)
  then have m: "map fixed (viewItems s) = map (\<lambda>(i, a). view_of opts a i) (enumerate 0 actions)"
    by (simp add: static_def)
  then show len: "length (viewItems s) = length actions"
    by (metis length_enumerate length_map)
  from st show "actionsList s = [0..<length actions]" "options s = opts" "isLinux s = linux"
    by (simp_all add: static_def)
  assume i: "i < length actions"
  with len have "fixed (viewItems s ! i) = map fixed (viewItems s) ! i" by simp
  also have "\<dots> = view_of opts (actions ! i) i"
    using i by (simp add: m nth_enumerate_eq)
  finally show "fixed (viewItems s ! i) = view_of opts (actions ! i) i" .
qed

section \<open>The show-delay timer\<close>

lemma showScheduler_fire_changes:
  "trace (showScheduler_fire i s) \<noteq> trace s \<or> heap (showScheduler_fire i s) \<noteq> heap s \<or>
   parentData_submenu (showScheduler_fire i s) \<noteq> parentData_submenu s \<Longrightarrow>
   \<exists>it. item_at s i = Some it \<and> showScheduler it \<and> mouseOver it"
  by (auto simp: showScheduler_fire_def showScheduler_callback_def upd_item_at
      split: option.splits if_splits)

lemma showScheduler_fire_away:
  assumes "\<And>it. item_at s i = Some it \<Longrightarrow> \<not> mouseOver it"
  shows "trace (showScheduler_fire i s) = trace s \<and> heap (showScheduler_fire i s) = heap s \<and>
         parentData_submenu (showScheduler_fire i s) = parentData_submenu s"
  using assms showScheduler_fire_changes [of i s] by blast

lemma hover_enter_leave:
  assumes "item_at s i = Some it" and "item_class it = SubmenuMenuActionViewItem"
    and "element it \<noteq> None"
  shows "\<exists>s'. step (MouseLeave i) (step (MouseOver i) s) = upd_item i (\<lambda>it. it\<lparr>mouseOver := False\<rparr>) s' \<and>
           trace s' = trace s \<and> heap s' = heap s \<and> parentData_submenu s' = parentData_submenu s"
proof -
  let ?s1 = "MOUSE_OVER i s"
  from assms have 1: "step (MouseOver i) s = ?s1" by (simp add: on_submenu_item_def)
  from assms have "\<exists>it'. item_at ?s1 i = Some it' \<and> item_class it' = SubmenuMenuActionViewItem \<and>
      element it' \<noteq> None"
    by (auto simp: MOUSE_OVER_def upd_item_at)
  then have 2: "step (MouseLeave i) ?s1 = MOUSE_LEAVE i ?s1"
    by (auto simp: on_submenu_item_def)
  have "trace ?s1 = trace s \<and> heap ?s1 = heap s \<and> parentData_submenu ?s1 = parentData_submenu s"
    by (simp add: MOUSE_OVER_def)
  with 1 2 show ?thesis by (auto simp: MOUSE_LEAVE_def)
qed

lemma hovered_upd_item:
  "(\<And>it. mouseOver (f it) = mouseOver it) \<Longrightarrow> hovered (upd_item j f s) i = hovered s i"
  by (simp add: hovered_def upd_item_at split: option.splits)

lemma hovered_same [simp]:
  "hovered (emit e s) i = hovered s i"
  "hovered (Menu_dispose m s) i = hovered s i"
  "hovered (s\<lparr>parentData_submenu := v\<rparr>) i = hovered s i"
  "hovered (s\<lparr>focusedItem := f\<rparr>) i = hovered s i"
  "hovered (s\<lparr>mnemonics := ms\<rparr>) i = hovered s i"
  "hovered (s\<lparr>heap := h\<rparr>) i = hovered s i"
  by (simp_all add: hovered_def item_at_def Menu_dispose_def emit_def)

lemma hovered_open [simp]:
  "hovered (cleanupExistingSubmenu j force s) i = hovered s i"
  "hovered (createSubmenu j b s) i = hovered s i"
  by (simp_all add: cleanupExistingSubmenu_def createSubmenu_def Let_def hovered_upd_item
      split: option.splits)

lemma hovered_onClick [simp]: "hovered (onClick j s) i = hovered s i"
  by (simp add: onClick_def split: option.splits)

lemma hovered_focus [simp]:
  "hovered (updateFocus s) i = hovered s i"
  "hovered (setFocusedItem c s) i = hovered s i"
  "hovered (focusItemByElement c s) i = hovered s i"
  "hovered (focusNext s) i = hovered s i"
  "hovered (focusPrevious s) i = hovered s i"
  "hovered (ActionBar_focus_index idx s) i = hovered s i"
  "hovered (ActionBar_run a c' s) i = hovered s i"
  by (simp_all add: updateFocus_def setFocusedItem_def focusItemByElement_def focusNext_def
      focusPrevious_def ActionBar_focus_index_def ActionBar_run_def Let_def split: option.splits)

lemma hovered_timers [simp]:
  "hovered (showScheduler_fire j s) i = hovered s i"
  "hovered (hideScheduler_fire j b s) i = hovered s i"
  by (simp_all add: showScheduler_fire_def showScheduler_callback_def hideScheduler_fire_def
      hideScheduler_callback_def hovered_upd_item split: option.splits)

lemma hovered_dispose [simp]:
  "hovered (SubmenuMenuActionViewItem_dispose j s) i = hovered s i"
  by (simp add: SubmenuMenuActionViewItem_dispose_def BaseActionViewItem_dispose_def Let_def
      hovered_upd_item split: option.splits)

lemma hovered_trigger [simp]: "hovered (trigger idx s) i = hovered s i"
  by (simp add: trigger_def SubmenuMenuActionViewItem_open_def split: option.splits)

lemma hovered_KEY_DOWN_linux [simp]: "hovered (KEY_DOWN_linux c s) i = hovered s i"
  by (simp add: KEY_DOWN_linux_def)

lemma hovered_KEY_DOWN_mnemonic [simp]: "hovered (KEY_DOWN_mnemonic k s) i = hovered s i"
  by (simp add: KEY_DOWN_mnemonic_def Let_def split: option.splits list.splits)

lemma hovered_listeners [simp]:
  "hovered (FOCUS_OUT j b s) i = hovered s i"
  "hovered (KEY_UP_open j s) i = hovered s i"
  "hovered (MOUSE_UP j b s) i = hovered s i"
  "hovered (onScroll j s) i = hovered s i"
  "hovered (submenu_close j s) i = hovered s i"
  "hovered (runOnceToEnableMouseUp_fire j s) i = hovered s i"
  "hovered (upd_item j BaseActionViewItem_dispose s) i = hovered s i"
  by (simp_all add: FOCUS_OUT_def KEY_UP_open_def MOUSE_UP_def onScroll_def submenu_close_def
      runOnceToEnableMouseUp_fire_def BaseActionViewItem_dispose_def hovered_upd_item
      split: option.splits)

lemma hovered_MOUSE_OVER: "j \<noteq> i \<Longrightarrow> hovered (MOUSE_OVER j s) i = hovered s i"
  by (simp add: MOUSE_OVER_def hovered_def upd_item_at)

lemma hovered_MOUSE_LEAVE: "hovered (MOUSE_LEAVE j s) i = (hovered s i \<and> j \<noteq> i)"
  by (auto simp: MOUSE_LEAVE_def hovered_def upd_item_at split: option.splits)

lemma hovered_on_submenu_item:
  "hovered (on_submenu_item j h s) i = (hovered (h s) i \<or> hovered s i) \<or>
   hovered (on_submenu_item j h s) i = hovered s i \<or>
   hovered (on_submenu_item j h s) i = hovered (h s) i"
  by (simp add: on_submenu_item_def split: option.splits)

lemma on_submenu_item_cases:
  "on_submenu_item j h s = s \<or> on_submenu_item j h s = h s"
  by (simp add: on_submenu_item_def split: option.splits)

lemma hovered_step:
  assumes "\<not> hovered s i" and "e \<noteq> MouseOver i"
  shows "\<not> hovered (step e s) i"
proof (cases e)
  case (MouseOver j)
  with assms(2) have "j \<noteq> i" by simp
  with assms(1) MouseOver on_submenu_item_cases [of j "MOUSE_OVER j" s] show ?thesis
    by (auto simp: hovered_MOUSE_OVER)
next
  case (MouseLeave j)
  with assms(1) on_submenu_item_cases [of j "MOUSE_LEAVE j" s] show ?thesis
    by (auto simp: hovered_MOUSE_LEAVE)
next
  case (FocusOut j b)
  with assms(1) on_submenu_item_cases [of j "FOCUS_OUT j b" s] show ?thesis by auto
next
  case (KeyUpOpen j)
  with assms(1) on_submenu_item_cases [of j "KEY_UP_open j" s] show ?thesis by auto
next
  case (ParentScroll j)
  with assms(1) on_submenu_item_cases [of j "onScroll j" s] show ?thesis by auto
next
  case (SubmenuClose j)
  with assms(1) show ?thesis by (simp split: option.splits)
next
  case (Dispose j)
  with assms(1) show ?thesis by (simp split: option.splits)
qed (use assms(1) in simp_all)

lemma hovered_run:
  "\<not> hovered s i \<Longrightarrow> MouseOver i \<notin> set evs \<Longrightarrow> \<not> hovered (run evs s) i"
proof (induction evs arbitrary: s)
  case Nil
  then show ?case by (simp add: run_def)
next
  case (Cons e evs)
  from Cons.prems have "e \<noteq> MouseOver i" and rest: "MouseOver i \<notin> set evs" by auto
  with Cons.prems(1) have "\<not> hovered (step e s) i" by (intro hovered_step)
  from Cons.IH [OF this rest] show ?case by (simp add: run_def)
qed


lemma hover_left:
  assumes "item_at s i = Some it" and "item_class it = SubmenuMenuActionViewItem"
    and "element it \<noteq> None"
  shows "\<not> hovered (run [MouseOver i, MouseLeave i] s) i"
proof -
  from hover_enter_leave [OF assms] obtain s' where
    "step (MouseLeave i) (step (MouseOver i) s) = upd_item i (\<lambda>it. it\<lparr>mouseOver := False\<rparr>) s'"
    by blast
  then show ?thesis by (simp add: run_def hovered_def upd_item_at split: option.splits)
qed

text \<open>
  Claim C8.  When the show-delay timer of a submenu item fires, a submenu is opened or
  closed only if the timer was pending and the pointer is over the item.  So on a
  rendered submenu item, after a hover that enters and leaves, and whatever happens
  next short of the pointer entering the item again, the timer opens nothing when it
  fires: the trace, the child menus and the slot are as before.
\<close>

theorem show_timer_needs_pointer:
  "((trace (step (ShowTimer i) s) \<noteq> trace s \<or> heap (step (ShowTimer i) s) \<noteq> heap s \<or>
     parentData_submenu (step (ShowTimer i) s) \<noteq> parentData_submenu s) \<longrightarrow>
    (\<exists>it. item_at s i = Some it \<and> showScheduler it \<and> mouseOver it)) \<and>
   ((\<exists>it. item_at s i = Some it \<and> item_class it = SubmenuMenuActionViewItem \<and>
          element it \<noteq> None) \<and> MouseOver i \<notin> set evs \<longrightarrow>
    trace (run ([MouseOver i, MouseLeave i] @ evs @ [ShowTimer i]) s) =
      trace (run ([MouseOver i, MouseLeave i] @ evs) s) \<and>
    heap (run ([MouseOver i, MouseLeave i] @ evs @ [ShowTimer i]) s) =
      heap (run ([MouseOver i, MouseLeave i] @ evs) s) \<and>
    parentData_submenu (run ([MouseOver i, MouseLeave i] @ evs @ [ShowTimer i]) s) =
      parentData_submenu (run ([MouseOver i, MouseLeave i] @ evs) s))"
proof (intro conjI impI)
  assume "trace (step (ShowTimer i) s) \<noteq> trace s \<or> heap (step (ShowTimer i) s) \<noteq> heap s \<or>
     parentData_submenu (step (ShowTimer i) s) \<noteq> parentData_submenu s"
  then show "\<exists>it. item_at s i = Some it \<and> showScheduler it \<and> mouseOver it"
    using showScheduler_fire_changes [of i s] by simp
next
  let ?t = "run ([MouseOver i, MouseLeave i] @ evs) s"
  assume h: "(\<exists>it. item_at s i = Some it \<and> item_class it = SubmenuMenuActionViewItem \<and>
          element it \<noteq> None) \<and> MouseOver i \<notin> set evs"
  then have left: "\<not> hovered (run [MouseOver i, MouseLeave i] s) i"
    using hover_left [of s i] by blast
  from h have "MouseOver i \<notin> set evs" by simp
  with left have "\<not> hovered (run evs (run [MouseOver i, MouseLeave i] s)) i"
    by (rule hovered_run)
  then have "\<not> hovered ?t i"
    by (simp add: run_def)
  then have "\<And>it. item_at ?t i = Some it \<Longrightarrow> \<not> mouseOver it"
    by (simp add: hovered_def)
  then have away: "trace (showScheduler_fire i ?t) = trace ?t \<and>
      heap (showScheduler_fire i ?t) = heap ?t \<and>
      parentData_submenu (showScheduler_fire i ?t) = parentData_submenu ?t"
    by (rule showScheduler_fire_away)
  have r: "run ([MouseOver i, MouseLeave i] @ evs @ [ShowTimer i]) s = showScheduler_fire i ?t"
    by (simp add: run_def)
  from away show "trace (run ([MouseOver i, MouseLeave i] @ evs @ [ShowTimer i]) s) = trace ?t"
    unfolding r by simp
  from away show "heap (run ([MouseOver i, MouseLeave i] @ evs @ [ShowTimer i]) s) = heap ?t"
    unfolding r by simp
  from away show "parentData_submenu (run ([MouseOver i, MouseLeave i] @ evs @ [ShowTimer i]) s) =
      parentData_submenu ?t"
    unfolding r by simp
qed

theorem show_timer_needs_pointer_witness:
  "(\<exists>it. item_at (run [MouseOver 0] two_submenus) 0 = Some it \<and> showScheduler it \<and> mouseOver it) \<and>
   trace (run [MouseOver 0, MouseLeave 0, Trigger 1, ShowTimer 0] two_submenus) =
     trace (run [MouseOver 0, MouseLeave 0, Trigger 1] two_submenus)"
proof -
  have "trace (step (ShowTimer 0) (run [MouseOver 0] two_submenus)) \<noteq>
        trace (run [MouseOver 0] two_submenus)"
    by code_simp
  then have 1: "\<exists>it. item_at (run [MouseOver 0] two_submenus) 0 = Some it \<and> showScheduler it \<and>
      mouseOver it"
    using show_timer_needs_pointer [of 0 "run [MouseOver 0] two_submenus"] by blast
  have "(case item_at two_submenus 0 of
        None \<Rightarrow> False
      | Some it \<Rightarrow> item_class it = SubmenuMenuActionViewItem \<and> element it \<noteq> None)"
    by code_simp
  then have "\<exists>it. item_at two_submenus 0 = Some it \<and>
      item_class it = SubmenuMenuActionViewItem \<and> element it \<noteq> None"
    by (simp split: option.splits)
  moreover have "MouseOver 0 \<notin> set [Trigger 1]" by simp
  ultimately have "trace (run ([MouseOver 0, MouseLeave 0] @ [Trigger 1] @ [ShowTimer 0]) two_submenus) =
      trace (run ([MouseOver 0, MouseLeave 0] @ [Trigger 1]) two_submenus)"
    using show_timer_needs_pointer [of 0 two_submenus "[Trigger 1]"] by blast
  with 1 show ?thesis by simp
qed

section \<open>The hide-delay timer\<close>

lemma hideScheduler_fire_changes:
  assumes "trace (hideScheduler_fire i focusInside s) \<noteq> trace s \<or>
   heap (hideScheduler_fire i focusInside s) \<noteq> heap s \<or>
   parentData_submenu (hideScheduler_fire i focusInside s) \<noteq> parentData_submenu s"
  shows "\<exists>it m. item_at s i = Some it \<and> hideScheduler it \<and> element it \<noteq> None \<and> \<not> focusInside \<and>
     parentData_submenu s = Some m \<and> mysubmenu it = Some m"
proof (cases "item_at s i")
  case None
  with assms show ?thesis by (simp add: hideScheduler_fire_def)
next
  case (Some it)
  show ?thesis
  proof (cases "hideScheduler it \<and> element it \<noteq> None \<and> \<not> focusInside \<and>
      parentData_submenu s \<noteq> None \<and> parentData_submenu s = mysubmenu it")
    case True
    then obtain m where m: "parentData_submenu s = Some m" by blast
    with True have "mysubmenu it = Some m" by simp
    with True Some m show ?thesis by blast
  next
    case False
    with Some have "trace (hideScheduler_fire i focusInside s) = trace s \<and>
        heap (hideScheduler_fire i focusInside s) = heap s \<and>
        parentData_submenu (hideScheduler_fire i focusInside s) = parentData_submenu s"
      by (auto simp: hideScheduler_fire_def hideScheduler_callback_def upd_item_at)
    with assms show ?thesis by blast
  qed
qed

lemma hideScheduler_fire_closes:
  assumes "item_at s i = Some it" and "hideScheduler it" and "element it \<noteq> None"
    and "\<not> focusInside" and "parentData_submenu s = Some m" and "mysubmenu it = Some m"
  shows "trace (hideScheduler_fire i focusInside s) =
           trace s @ [ParentFocus (Some False), Disposed m] \<and>
         parentData_submenu (hideScheduler_fire i focusInside s) = None \<and>
         m \<notin> set (open_menus (hideScheduler_fire i focusInside s))"
  using assms
  by (simp add: hideScheduler_fire_def hideScheduler_callback_def upd_item_at
      cleanupExistingSubmenu_def open_menus_dispose)

text \<open>
  Claim C9.  When the hide-delay timer of a submenu item fires, something happens only
  if the item has its element, the focus is not inside it, and the slot holds the
  item's own submenu.  Then the focus goes back to the parent menu first, the child
  menu is disposed next, and the slot is cleared.
\<close>

theorem hide_timer_guards:
  "((trace (step (HideTimer i focusInside) s) \<noteq> trace s \<or>
     heap (step (HideTimer i focusInside) s) \<noteq> heap s \<or>
     parentData_submenu (step (HideTimer i focusInside) s) \<noteq> parentData_submenu s) \<longrightarrow>
    (\<exists>it m. item_at s i = Some it \<and> hideScheduler it \<and> element it \<noteq> None \<and> \<not> focusInside \<and>
       parentData_submenu s = Some m \<and> mysubmenu it = Some m)) \<and>
   (\<forall>it m. item_at s i = Some it \<and> hideScheduler it \<and> element it \<noteq> None \<and> \<not> focusInside \<and>
       parentData_submenu s = Some m \<and> mysubmenu it = Some m \<longrightarrow>
     trace (step (HideTimer i focusInside) s) = trace s @ [ParentFocus (Some False), Disposed m] \<and>
     parentData_submenu (step (HideTimer i focusInside) s) = None \<and>
     m \<notin> set (open_menus (step (HideTimer i focusInside) s)))"
  using hideScheduler_fire_changes [of i focusInside s] hideScheduler_fire_closes [of s i]
  by (simp del: not_None_eq) blast

theorem hide_timer_guards_witness:
  "trace (step (HideTimer 0 False) (run [Trigger 0, FocusOut 0 False] two_submenus)) =
     trace (run [Trigger 0, FocusOut 0 False] two_submenus) @ [ParentFocus (Some False), Disposed 0] \<and>
   (\<exists>it m. item_at (run [Trigger 0, FocusOut 0 False] two_submenus) 0 = Some it \<and> hideScheduler it \<and>
      element it \<noteq> None \<and> parentData_submenu (run [Trigger 0, FocusOut 0 False] two_submenus) = Some m \<and>
      mysubmenu it = Some m)"
proof -
  let ?s = "run [Trigger 0, FocusOut 0 False] two_submenus"
  have c: "trace (step (HideTimer 0 False) ?s) \<noteq> trace ?s"
    by code_simp
  then obtain it m where h: "item_at ?s 0 = Some it \<and> hideScheduler it \<and> element it \<noteq> None \<and>
      \<not> False \<and> parentData_submenu ?s = Some m \<and> mysubmenu it = Some m"
    using hide_timer_guards [of 0 False ?s] by blast
  then have "trace (step (HideTimer 0 False) ?s) = trace ?s @ [ParentFocus (Some False), Disposed m]"
    using hide_timer_guards [of 0 False ?s] by blast
  moreover have "parentData_submenu ?s = Some 0" by code_simp
  ultimately show ?thesis using h by auto
qed

section \<open>Disposing an item view while its show-delay timer is pending\<close>

text \<open>
  Claim C2 fails on the code.  Disposal cancels the timer that arms the mouse-up
  listener and the hide-delay timer, not the show-delay timer.  A submenu item that
  was hovered and then disposed still has its show-delay timer pending; when that
  fires, its callback runs and closes the submenu a sibling had open.
\<close>

theorem showScheduler_survives_dispose:
  "map_option (\<lambda>it. (showScheduler it, hideScheduler it, runOnceToEnableMouseUp it))
     (item_at (run [Trigger 1, MouseOver 0, FocusOut 0 False, Dispose 0] two_submenus) 0) =
     Some (True, False, False) \<and>
   open_menus (run [Trigger 1, MouseOver 0, FocusOut 0 False, Dispose 0] two_submenus) = [0] \<and>
   trace (run [Trigger 1, MouseOver 0, FocusOut 0 False, Dispose 0, ShowTimer 0] two_submenus) =
     trace (run [Trigger 1, MouseOver 0, FocusOut 0 False, Dispose 0] two_submenus) @ [Disposed 0] \<and>
   open_menus (run [Trigger 1, MouseOver 0, FocusOut 0 False, Dispose 0, ShowTimer 0] two_submenus) = []"
  by code_simp

section \<open>trigger\<close>






lemma ActionBar_focus_index_fields [simp]:
  "item_at (ActionBar_focus_index idx s) j = item_at s j"
  "heap (ActionBar_focus_index idx s) = heap s"
  "parentData_submenu (ActionBar_focus_index idx s) = parentData_submenu s"
  "focusedItem (ActionBar_focus_index idx s) = Some idx"
  by (simp_all add: ActionBar_focus_index_def updateFocus_def)




section \<open>Home, End, PageUp and PageDown on Linux\<close>

lemma focusable_focusedItem [simp]: "focusable (s\<lparr>focusedItem := f\<rparr>) = focusable s"
  by (rule ext) (simp add: focusable_def)

lemma candidates_next:
  "map (\<lambda>k. nat ((int n - 1 + int k) mod int n)) [Suc 0..<Suc n] = [0..<n]"
proof (rule nth_equalityI)
  show "length (map (\<lambda>k. nat ((int n - 1 + int k) mod int n)) [Suc 0..<Suc n]) = length [0..<n]"
    by (simp del: upt_Suc)
next
  fix i
  assume "i < length (map (\<lambda>k. nat ((int n - 1 + int k) mod int n)) [Suc 0..<Suc n])"
  then have i: "i < n" by (simp del: upt_Suc)
  then have "[Suc 0..<Suc n] ! i = Suc i" by (simp del: upt_Suc)
  moreover have "(int n - 1 + int (Suc i)) mod int n = int i"
    using i by simp
  ultimately show "map (\<lambda>k. nat ((int n - 1 + int k) mod int n)) [Suc 0..<Suc n] ! i = [0..<n] ! i"
    using i by (simp del: upt_Suc)
qed

lemma candidates_previous:
  "map (\<lambda>k. nat ((- int k) mod int n)) [Suc 0..<Suc n] = rev [0..<n]"
proof (rule nth_equalityI)
  show "length (map (\<lambda>k. nat ((- int k) mod int n)) [Suc 0..<Suc n]) = length (rev [0..<n])"
    by (simp del: upt_Suc)
next
  fix i
  assume "i < length (map (\<lambda>k. nat ((- int k) mod int n)) [Suc 0..<Suc n])"
  then have i: "i < n" by (simp del: upt_Suc)
  then have "[Suc 0..<Suc n] ! i = Suc i" by (simp del: upt_Suc)
  moreover have "(- int (Suc i)) mod int n = int n - 1 - int i"
  proof -
    have "(- int (Suc i)) mod int n = (int n + (- int (Suc i))) mod int n"
      by (simp only: mod_add_self1)
    also have "int n + (- int (Suc i)) = int n - 1 - int i" by simp
    also have "(int n - 1 - int i) mod int n = int n - 1 - int i" using i by simp
    finally show ?thesis .
  qed
  ultimately show "map (\<lambda>k. nat ((- int k) mod int n)) [Suc 0..<Suc n] ! i = rev [0..<n] ! i"
    using i by (simp add: rev_nth del: upt_Suc)
qed

lemma focusNext_from_last:
  "focusedItem (focusNext (s\<lparr>focusedItem := Some (int (length (viewItems s)) - 1)\<rparr>)) =
     map_option int (find (focusable s) [0..<length (viewItems s)])"
  by (simp add: focusNext_def updateFocus_def Let_def candidates_next del: upt_Suc)

lemma focusPrevious_from_first:
  "focusedItem (focusPrevious (s\<lparr>focusedItem := Some 0\<rparr>)) =
     map_option int (find (focusable s) (rev [0..<length (viewItems s)]))"
  by (simp add: focusPrevious_def updateFocus_def Let_def candidates_previous del: upt_Suc)

text \<open>
  Claim C7.  On Linux, a key-down of Home or PageUp sets the focused index to the last
  position and calls \<open>focusNext\<close>, which leaves the focus on the first focusable item;
  a key-down of End or PageDown sets the focused index to 0 and calls \<open>focusPrevious\<close>,
  which leaves the focus on the last focusable item.
\<close>

theorem linux_home_end:
  assumes "isLinux s"
  shows "(k = Home \<or> k = PageUp \<longrightarrow>
           KEY_DOWN_linux k s =
             focusNext (s\<lparr>focusedItem := Some (int (length (viewItems s)) - 1)\<rparr>) \<and>
           focusedItem (KEY_DOWN_linux k s) =
             map_option int (find (focusable s) [0..<length (viewItems s)])) \<and>
         (k = End \<or> k = PageDown \<longrightarrow>
           KEY_DOWN_linux k s = focusPrevious (s\<lparr>focusedItem := Some 0\<rparr>) \<and>
           focusedItem (KEY_DOWN_linux k s) =
             map_option int (find (focusable s) (rev [0..<length (viewItems s)])))"
  using assms focusNext_from_last [of s] focusPrevious_from_first [of s]
  by (auto simp: KEY_DOWN_linux_def)

theorem linux_home_end_witness:
  "focusedItem (KEY_DOWN_linux Home open_recent_close) = Some 1 \<and>
   focusedItem (KEY_DOWN_linux PageUp open_recent_close) = Some 1 \<and>
   focusedItem (KEY_DOWN_linux End open_recent_close) = Some 2 \<and>
   focusedItem (KEY_DOWN_linux PageDown open_recent_close) = Some 2"
proof -
  have l: "isLinux open_recent_close" by code_simp
  have f: "map_option int (find (focusable open_recent_close)
      [0..<length (viewItems open_recent_close)]) = Some 1"
    by code_simp
  have b: "map_option int (find (focusable open_recent_close)
      (rev [0..<length (viewItems open_recent_close)])) = Some 2"
    by code_simp
  from linux_home_end [OF l, of Home] f
  have 1: "focusedItem (KEY_DOWN_linux Home open_recent_close) = Some 1" by metis
  from linux_home_end [OF l, of PageUp] f
  have 2: "focusedItem (KEY_DOWN_linux PageUp open_recent_close) = Some 1" by metis
  from linux_home_end [OF l, of End] b
  have 3: "focusedItem (KEY_DOWN_linux End open_recent_close) = Some 2" by metis
  from linux_home_end [OF l, of PageDown] b
  have 4: "focusedItem (KEY_DOWN_linux PageDown open_recent_close) = Some 2" by metis
  from 1 2 3 4 show ?thesis by blast
qed

section \<open>Cycling through the items that share a mnemonic\<close>

lemma mnemonics_kept [simp]:
  "mnemonics (emit e s) = mnemonics s"
  "mnemonics (upd_item i f s) = mnemonics s"
  "mnemonics (Menu_dispose m s) = mnemonics s"
  "mnemonics (updateFocus s) = mnemonics s"
  "mnemonics (setFocusedItem c s) = mnemonics s"
  "mnemonics (focusItemByElement c s) = mnemonics s"
  by (simp_all add: emit_def upd_item_def Menu_dispose_def updateFocus_def setFocusedItem_def
      focusItemByElement_def Let_def split: option.splits)

lemma mnemonics_open [simp]:
  "mnemonics (cleanupExistingSubmenu i force s) = mnemonics s"
  "mnemonics (createSubmenu i b s) = mnemonics s"
  by (simp_all add: cleanupExistingSubmenu_def createSubmenu_def Let_def split: option.splits)

lemma mnemonics_onClick [simp]: "mnemonics (onClick i s) = mnemonics s"
  by (simp add: onClick_def split: option.splits)

lemma mnemonics_handlers [simp]:
  "mnemonics (showScheduler_fire i s) = mnemonics s"
  "mnemonics (hideScheduler_fire i b s) = mnemonics s"
  "mnemonics (SubmenuMenuActionViewItem_dispose i s) = mnemonics s"
  "mnemonics (trigger idx s) = mnemonics s"
  "mnemonics (KEY_DOWN_linux c s) = mnemonics s"
  by (simp_all add: showScheduler_fire_def showScheduler_callback_def hideScheduler_fire_def
      hideScheduler_callback_def SubmenuMenuActionViewItem_dispose_def trigger_def
      SubmenuMenuActionViewItem_open_def ActionBar_focus_index_def ActionBar_run_def
      KEY_DOWN_linux_def focusNext_def focusPrevious_def Let_def split: option.splits)

lemma mnemonics_step:
  "\<not> is_dispatch k e \<Longrightarrow> (\<forall>K. e \<noteq> MnemonicKey K) \<Longrightarrow> mnemonics (step e s) = mnemonics s"
  by (cases e)
     (simp_all add: on_submenu_item_def MOUSE_OVER_def MOUSE_LEAVE_def FOCUS_OUT_def
        KEY_UP_open_def MOUSE_UP_def onScroll_def submenu_close_def
        runOnceToEnableMouseUp_fire_def split: option.splits)

lemma setFocusedItem_loop_upt:
  "j \<le> e \<Longrightarrow> e < n \<Longrightarrow> setFocusedItem_loop e [j..<n] j = Some e"
proof (induction "e - j" arbitrary: j)
  case 0
  then show ?case by (simp add: upt_conv_Cons)
next
  case (Suc d)
  then have "j < n" and "e \<noteq> j" and "d = e - Suc j" and "Suc j \<le> e" by simp_all
  with Suc.hyps(1) [of "Suc j"] Suc.prems show ?case by (simp add: upt_conv_Cons)
qed

lemma mnemonic_disabled [simp]: "BaseMenuActionViewItem_mnemonic opt False l = None"
  by (simp add: BaseMenuActionViewItem_mnemonic_def)

lemma entry_register:
  "entry (register_mnemonic (new_item c a None (enableMnemonics (options s))) i s) k =
     entry s k @
     (if (case BaseMenuActionViewItem_mnemonic None (enableMnemonics (options s)) (label a) of
            None \<Rightarrow> None
          | Some mn \<Rightarrow> if mn \<noteq> [] \<and> enabled a then Some mn else None) = Some k
      then [i] else [])"
  by (cases "enableMnemonics (options s)")
     (auto simp: register_mnemonic_def getMnemonic_def isEnabled_def new_item_def entry_def
        Let_def update_conv' split: option.splits)

lemma entry_push1:
  "entry (push1 a s) k =
     entry s k @ (if key_of (options s) a = Some k then [length (viewItems s)] else [])"
proof -
  have r: "\<And>i c t. mnemonics (render i c t) = mnemonics t"
    by (simp add: render_def)
  have e: "\<And>t v w. entry (t\<lparr>viewItems := v, actionsList := w\<rparr>) k = entry t k"
    by (simp add: entry_def)
  have m: "\<And>t u. mnemonics t = mnemonics u \<Longrightarrow> entry t k = entry u k"
    by (simp add: entry_def)
  show ?thesis
  proof (cases a)
    case (Action l en)
    show ?thesis
      unfolding Action
      using entry_register [of BaseMenuActionViewItem "Action l en" s "length (viewItems s)" k]
      by (simp add: push1_def doGetActionViewItem_def Let_def key_of_def m [OF r] e)
  next
    case (Separator l en)
    then show ?thesis
      by (simp add: push1_def doGetActionViewItem_def Let_def key_of_def m [OF r] e)
  next
    case (SubmenuAction l en es)
    show ?thesis
      unfolding SubmenuAction
      using entry_register [of SubmenuMenuActionViewItem "SubmenuAction l en es" s
          "length (viewItems s)" k]
      by (simp add: push1_def doGetActionViewItem_def Let_def key_of_def m [OF r] e)
  qed
qed

lemma Menu_snoc: "Menu (actions @ [a]) opts linux = push1 a (Menu actions opts linux)"
  by (simp add: Menu_def push_def)

lemma Menu_entry:
  "entry (Menu actions opts linux) k =
     filter (\<lambda>i. key_of opts (actions ! i) = Some k) [0..<length actions]"
proof (induction actions rule: rev_induct)
  case Nil
  then show ?case by (simp add: Menu_def push_def entry_def)
next
  case (snoc a actions)
  let ?M = "Menu actions opts linux"
  have M: "?M = run [] ?M" by (simp add: run_def)
  note len = reachable_items(1) [OF M] and op = reachable_items(3) [OF M]
  have "filter (\<lambda>i. key_of opts ((actions @ [a]) ! i) = Some k) [0..<length actions] =
        filter (\<lambda>i. key_of opts (actions ! i) = Some k) [0..<length actions]"
    by (rule filter_cong) (simp_all add: nth_append)
  then show ?case
    by (simp add: Menu_snoc entry_push1 snoc.IH len op)
qed

lemma dispatch_other:
  "toLocaleLowerCase K \<noteq> k \<Longrightarrow>
   map_of (mnemonics (KEY_DOWN_mnemonic K s)) k = map_of (mnemonics s) k"
  by (simp add: KEY_DOWN_mnemonic_def Let_def update_conv' split: option.splits list.splits)

lemma dispatch_rotates:
  assumes S: "S = run evs (Menu actions opts linux)"
    and en: "enableMnemonics opts"
    and ent: "map_of (mnemonics S) k = Some (a # rest)" and rest: "rest \<noteq> []"
    and a: "a < length actions" and c: "container (viewItems S ! a) = Some a"
    and K: "toLocaleLowerCase K = k"
  shows "map_of (mnemonics (KEY_DOWN_mnemonic K S)) k = Some (rest @ [a]) \<and>
         focusedItem (KEY_DOWN_mnemonic K S) = Some (int a)"
proof -
  note len = reachable_items(1) [OF S] and al = reachable_items(2) [OF S]
    and op = reachable_items(3) [OF S]
  from a len have at: "item_at S a = Some (viewItems S ! a)" by (simp add: item_at_def)
  from a have loop: "setFocusedItem_loop a (actionsList S) 0 = Some a"
    unfolding al by (intro setFocusedItem_loop_upt) simp_all
  have f: "focusedItem (focusItemByElement a S) = Some (int a)"
    by (simp add: focusItemByElement_def setFocusedItem_def loop Let_def updateFocus_def)
  from rest have l1: "length (a # rest) \<noteq> 1" and l2: "1 < length (a # rest)" by simp_all
  have "KEY_DOWN_mnemonic K S =
      (focusItemByElement a S)\<lparr>mnemonics := AList.update k (rest @ [a]) (mnemonics S)\<rparr>"
    unfolding KEY_DOWN_mnemonic_def using en ent l1 l2 at c K
    by (simp add: op Let_def del: length_Cons One_nat_def)
  with f show ?thesis by (simp add: update_conv')
qed

lemma fixed_container: "fixed it = v \<Longrightarrow> container it = snd (snd (snd v))"
  by (auto simp: fixed_def)

lemma key_of_Some:
  assumes "key_of opts a = Some k"
  shows "enabled a" and "enableMnemonics opts" and "snd (snd (snd (view_of opts a i))) = Some i"
proof -
  from assms show "enabled a"
    by (cases a) (simp_all add: key_of_def split: option.splits if_splits)
  from assms show "enableMnemonics opts"
    by (cases a; cases "enableMnemonics opts") (simp_all add: key_of_def)
  from assms show "snd (snd (snd (view_of opts a i))) = Some i"
    by (cases a) (simp_all add: key_of_def view_of_def)
qed

text \<open>
  Claim C3.  Let the index of a constructed menu hold more than one item view for the
  key \<open>k\<close>.  These are the views of the actions whose mnemonic is \<open>k\<close> and that were
  enabled at construction, in the order of the actions.  Whatever else happens to the
  menu, after \<open>j\<close> dispatches of \<open>k\<close> the entry is the registered list rotated \<open>j\<close> times,
  and the next dispatch of \<open>k\<close> takes its first item, focuses it and appends it to the
  end: the dispatches focus the registered items in order, cyclically.
\<close>

theorem mnemonic_cycling:
  assumes reg: "map_of (mnemonics (Menu actions opts linux)) k = Some xs"
    and many: "1 < length xs" and K: "toLocaleLowerCase K = k"
  shows "xs = filter (\<lambda>i. key_of opts (actions ! i) = Some k) [0..<length actions] \<and>
    (\<forall>i \<in> set xs. enabled (actions ! i)) \<and>
    map_of (mnemonics (run evs (Menu actions opts linux))) k =
      Some (rotate (dispatches k evs) xs) \<and>
    focusedItem (step (MnemonicKey K) (run evs (Menu actions opts linux))) =
      Some (int (xs ! (dispatches k evs mod length xs))) \<and>
    map_of (mnemonics (step (MnemonicKey K) (run evs (Menu actions opts linux)))) k =
      Some (rotate (Suc (dispatches k evs)) xs)"
proof -
  let ?M = "Menu actions opts linux"
  from reg have "xs = entry ?M k" by (simp add: entry_def)
  then have xs: "xs = filter (\<lambda>i. key_of opts (actions ! i) = Some k) [0..<length actions]"
    by (simp add: Menu_entry)
  then have mem: "\<And>i. i \<in> set xs \<Longrightarrow> i < length actions \<and> key_of opts (actions ! i) = Some k"
    by simp
  have enab: "\<And>i. i \<in> set xs \<Longrightarrow> enabled (actions ! i)"
    using mem key_of_Some(1) by blast
  from many obtain i0 where "i0 \<in> set xs" by (cases xs) auto
  then have "key_of opts (actions ! i0) = Some k" using mem by blast
  then have en: "enableMnemonics opts"
    by (rule key_of_Some(2))
  have cont: "\<And>i evs. i \<in> set xs \<Longrightarrow> container (viewItems (run evs ?M) ! i) = Some i"
  proof -
    fix i evs
    assume "i \<in> set xs"
    then have i: "i < length actions" and k: "key_of opts (actions ! i) = Some k"
      using mem by blast+
    from reachable_items(5) [OF refl i, of evs opts linux]
    have "fixed (viewItems (run evs ?M) ! i) = view_of opts (actions ! i) i" .
    then have "container (viewItems (run evs ?M) ! i) = snd (snd (snd (view_of opts (actions ! i) i)))"
      by (rule fixed_container)
    with key_of_Some(3) [OF k, of i] show "container (viewItems (run evs ?M) ! i) = Some i"
      by simp
  qed
  have step_k: "\<And>evs j K. toLocaleLowerCase K = k \<Longrightarrow>
      map_of (mnemonics (run evs ?M)) k = Some (rotate j xs) \<Longrightarrow>
      map_of (mnemonics (KEY_DOWN_mnemonic K (run evs ?M))) k = Some (rotate (Suc j) xs) \<and>
      focusedItem (KEY_DOWN_mnemonic K (run evs ?M)) = Some (int (xs ! (j mod length xs)))"
  proof -
    fix evs j K
    assume K: "toLocaleLowerCase K = k"
    assume e: "map_of (mnemonics (run evs ?M)) k = Some (rotate j xs)"
    from many have ne: "xs \<noteq> []" by auto
    from many have "1 < length (rotate j xs)" by simp
    then obtain a rest where ar: "rotate j xs = a # rest" and rest: "rest \<noteq> []"
      by (cases "rotate j xs"; cases "tl (rotate j xs)") auto
    then have "a = hd (rotate j xs)" by simp
    with ne have a: "a = xs ! (j mod length xs)" by (simp add: hd_rotate_conv_nth)
    from ar have "a \<in> set (rotate j xs)" by simp
    then have ain: "a \<in> set xs" by simp
    from dispatch_rotates [OF refl en e [unfolded ar] rest _ cont [OF ain] K] mem [OF ain]
    have "map_of (mnemonics (KEY_DOWN_mnemonic K (run evs ?M))) k = Some (rest @ [a]) \<and>
         focusedItem (KEY_DOWN_mnemonic K (run evs ?M)) = Some (int a)"
      by blast
    moreover have "rotate (Suc j) xs = rest @ [a]" by (simp add: ar)
    ultimately show "map_of (mnemonics (KEY_DOWN_mnemonic K (run evs ?M))) k = Some (rotate (Suc j) xs) \<and>
      focusedItem (KEY_DOWN_mnemonic K (run evs ?M)) = Some (int (xs ! (j mod length xs)))"
      using a by simp
  qed
  have inv: "map_of (mnemonics (run evs ?M)) k = Some (rotate (dispatches k evs) xs)"
  proof (induction evs rule: rev_induct)
    case Nil
    then show ?case using reg by (simp add: run_def dispatches_def)
  next
    case (snoc e evs)
    have r: "\<And>e. run (evs @ [e]) ?M = step e (run evs ?M)" by (simp add: run_def)
    show ?case
    proof (cases "is_dispatch k e")
      case True
      then obtain K' where e: "e = MnemonicKey K'" and K': "toLocaleLowerCase K' = k"
        by (cases e) auto
      from step_k [OF K' snoc.IH]
      have "map_of (mnemonics (KEY_DOWN_mnemonic K' (run evs ?M))) k =
          Some (rotate (Suc (dispatches k evs)) xs)"
        by blast
      with e K' show ?thesis by (simp add: r dispatches_def)
    next
      case False
      show ?thesis
      proof (cases "\<exists>K'. e = MnemonicKey K'")
        case True
        then obtain K' where e: "e = MnemonicKey K'" by blast
        with False have "toLocaleLowerCase K' \<noteq> k" by simp
        with snoc.IH e False show ?thesis by (simp add: r dispatch_other dispatches_def)
      next
        case other: False
        with snoc.IH False show ?thesis
          by (simp add: r mnemonics_step dispatches_def)
      qed
    qed
  qed
  from step_k [OF K inv] xs enab inv show ?thesis by simp
qed

theorem mnemonic_cycling_witness:
  "map_of (mnemonics fruit) ''a'' = Some [0, 3, 4] \<and>
   focusedItem (step (MnemonicKey ''A'') (run [] fruit)) = Some 0 \<and>
   focusedItem (step (MnemonicKey ''A'') (run [MnemonicKey ''a''] fruit)) = Some 3 \<and>
   focusedItem (step (MnemonicKey ''A'')
     (run [MnemonicKey ''a'', Trigger 3, MnemonicKey ''A''] fruit)) = Some 4 \<and>
   focusedItem (step (MnemonicKey ''A'')
     (run [MnemonicKey ''a'', MnemonicKey ''A'', ShowTimer 3, MnemonicKey ''a''] fruit)) = Some 0"
proof -
  have reg: "map_of (mnemonics fruit) ''a'' = Some [0, 3, 4]" by code_simp
  have many: "1 < length [0::nat, 3, 4]" by simp
  have K: "toLocaleLowerCase ''A'' = ''a''" by code_simp
  have k: "toLocaleLowerCase ''a'' = ''a''" by code_simp
  note t = mnemonic_cycling [OF reg many K]
  have d0: "dispatches ''a'' [] = 0" by (simp add: dispatches_def)
  have d1: "dispatches ''a'' [MnemonicKey ''a''] = 1" by (simp add: dispatches_def k)
  have d2: "dispatches ''a'' [MnemonicKey ''a'', Trigger 3, MnemonicKey ''A''] = 2"
    by (simp add: dispatches_def k K)
  have d3: "dispatches ''a'' [MnemonicKey ''a'', MnemonicKey ''A'', ShowTimer 3, MnemonicKey ''a''] = 3"
    by (simp add: dispatches_def k K)
  from t [of "[]"] d0 have 0: "focusedItem (step (MnemonicKey ''A'') (run [] fruit)) = Some 0"
    by simp
  from t [of "[MnemonicKey ''a'']"] d1
  have 1: "focusedItem (step (MnemonicKey ''A'') (run [MnemonicKey ''a''] fruit)) = Some 3"
    by simp
  from t [of "[MnemonicKey ''a'', Trigger 3, MnemonicKey ''A'']"] d2
  have 2: "focusedItem (step (MnemonicKey ''A'')
     (run [MnemonicKey ''a'', Trigger 3, MnemonicKey ''A''] fruit)) = Some 4"
    by simp
  from t [of "[MnemonicKey ''a'', MnemonicKey ''A'', ShowTimer 3, MnemonicKey ''a'']"] d3
  have 3: "focusedItem (step (MnemonicKey ''A'')
     (run [MnemonicKey ''a'', MnemonicKey ''A'', ShowTimer 3, MnemonicKey ''a''] fruit)) = Some 0"
    by simp
  from reg 0 1 2 3 show ?thesis by blast
qed

end
